theory Spec2Isabelle
  imports Main
begin

chapter \<open>The Otoracle pipeline plugin: manifest builder and run orchestrator\<close>

text \<open>
  A shallow embedding of the helper functions of \<^verbatim>\<open>src/src/main.ts\<close> (\<^verbatim>\<open>slugify\<close>,
  \<^verbatim>\<open>guessSourceType\<close>, \<^verbatim>\<open>buildCitationKey\<close>, \<^verbatim>\<open>escapeCSV\<close>), of the methods
  \<^verbatim>\<open>addFiles\<close>, \<^verbatim>\<open>validate\<close> and \<^verbatim>\<open>submit\<close> of \<^verbatim>\<open>AddPDFsModal\<close>, and of
  \<^verbatim>\<open>runPipelineCmd\<close> of the plugin class.

  A JavaScript string is a sequence of UTF-16 code units. It is modelled as a \<^typ>\<open>string\<close>
  whose characters are the code units \<open>0x00 .. 0xFF\<close> (the Latin-1 range), one \<^typ>\<open>char\<close> per
  code unit, so the theorems speak about strings made of those code units. On that range the
  classes \<^verbatim>\<open>\w\<close>, \<^verbatim>\<open>\s\<close>, \<^verbatim>\<open>\d\<close> and the methods \<^verbatim>\<open>toLowerCase\<close> and \<^verbatim>\<open>trim\<close> are
  exactly the functions below.
\<close>

section \<open>Part I: the model\<close>

subsection \<open>Characters and string primitives of the runtime\<close>

definition code :: "char \<Rightarrow> nat" where
  "code c = of_char c"

text \<open>Upper-case letters with a lower-case partner: \<open>A-Z\<close>, and \<open>0xC0 .. 0xDE\<close> without the
  multiplication sign \<open>0xD7\<close>. Their partner is 32 code units further.\<close>

definition is_upper :: "char \<Rightarrow> bool" where
  "is_upper c =
     ((65 \<le> code c \<and> code c \<le> 90) \<or> (192 \<le> code c \<and> code c \<le> 222 \<and> code c \<noteq> 215))"

definition lower_char :: "char \<Rightarrow> char" where
  "lower_char c = (if is_upper c then char_of (code c + 32) else c)"

definition toLowerCase :: "string \<Rightarrow> string" where
  "toLowerCase s = map lower_char s"

text \<open>\<^verbatim>\<open>\w\<close> is \<^verbatim>\<open>[A-Za-z0-9_]\<close>; \<^verbatim>\<open>\d\<close> is \<^verbatim>\<open>[0-9]\<close>; \<^verbatim>\<open>\s\<close> is tab, line feed,
  vertical tab, form feed, carriage return, space and the no-break space.\<close>

definition is_word :: "char \<Rightarrow> bool" where
  "is_word c =
     ((48 \<le> code c \<and> code c \<le> 57) \<or> (65 \<le> code c \<and> code c \<le> 90) \<or> code c = 95
      \<or> (97 \<le> code c \<and> code c \<le> 122))"

definition is_digit :: "char \<Rightarrow> bool" where
  "is_digit c = (48 \<le> code c \<and> code c \<le> 57)"

definition is_space :: "char \<Rightarrow> bool" where
  "is_space c = ((9 \<le> code c \<and> code c \<le> 13) \<or> code c = 32 \<or> code c = 160)"

text \<open>\<^verbatim>\<open>String.prototype.trim\<close> removes the white space and line terminators at both ends;
  on this range these are the characters of \<^verbatim>\<open>\s\<close>.\<close>

definition trim :: "string \<Rightarrow> string" where
  "trim s = rev (dropWhile is_space (rev (dropWhile is_space s)))"

definition endsWith :: "string \<Rightarrow> string \<Rightarrow> bool" where
  "endsWith s suf = (length suf \<le> length s \<and> drop (length s - length suf) s = suf)"

text \<open>\<^verbatim>\<open>s.replace(/p+/g, r)\<close> for a character class \<open>p\<close>: every maximal run of characters of the
  class is replaced by \<open>r\<close>.\<close>

function replace_runs :: "(char \<Rightarrow> bool) \<Rightarrow> string \<Rightarrow> string \<Rightarrow> string" where
  "replace_runs p r [] = []"
| "replace_runs p r (c # cs) =
     (if p c then r @ replace_runs p r (dropWhile p cs) else c # replace_runs p r cs)"
  by pat_completeness auto
termination
  by (relation "measure (\<lambda>(p, r, s). length s)") (auto simp: less_Suc_eq_le length_dropWhile_le)

text \<open>\<^verbatim>\<open>xs.join(sep)\<close> on an array of strings.\<close>

fun join_with :: "string \<Rightarrow> string list \<Rightarrow> string" where
  "join_with sep [] = []"
| "join_with sep [x] = x"
| "join_with sep (x # y # ys) = x @ sep @ join_with sep (y # ys)"

subsection \<open>\<^verbatim>\<open>slugify\<close>\<close>

text \<open>\<^verbatim>\<open>.replace(/^-|-$/g, '')\<close>: the match at the start removes a leading hyphen, the match at
  the end removes a trailing hyphen of what is left (the two matches never overlap).\<close>

definition strip_edge_hyphens :: "string \<Rightarrow> string" where
  "strip_edge_hyphens s =
     (let t = (case s of [] \<Rightarrow> [] | c # cs \<Rightarrow> if c = CHR ''-'' then cs else s)
      in if t \<noteq> [] \<and> last t = CHR ''-'' then butlast t else t)"

text \<open>
  \<^verbatim>\<open>str.toLowerCase().replace(/[^\w\s-]/g, '').replace(/\s+/g, '-')
     .replace(/-+/g, '-').replace(/^-|-$/g, '')\<close>
\<close>

definition slugify :: "string \<Rightarrow> string" where
  "slugify str =
     strip_edge_hyphens
       (replace_runs (\<lambda>c. c = CHR ''-'') ''-''
         (replace_runs is_space ''-''
           (filter (\<lambda>c. is_word c \<or> is_space c \<or> c = CHR ''-'')
             (toLowerCase str))))"

subsection \<open>\<^verbatim>\<open>buildCitationKey\<close>\<close>

text \<open>\<^verbatim>\<open>s.split(/\s+/)\<close>: the pieces between the maximal runs of white space. A string without
  white space (the empty one too) gives one piece; leading or trailing white space gives an
  empty first or last piece.\<close>

function split_ws :: "string \<Rightarrow> string list" where
  "split_ws s =
     (let tok = takeWhile (\<lambda>c. \<not> is_space c) s; rest = dropWhile (\<lambda>c. \<not> is_space c) s
      in if rest = [] then [tok] else tok # split_ws (dropWhile is_space rest))"
  by pat_completeness auto
termination
proof (relation "measure length")
  show "wf (measure length)" by simp
next
  fix s :: string and tok rest
  assume r: "rest = dropWhile (\<lambda>c. \<not> is_space c) s" and ne: "rest \<noteq> []"
  from ne obtain c cs where rc: "rest = c # cs" by (cases rest) auto
  have "length (dropWhile is_space rest) \<le> length rest" by (rule length_dropWhile_le)
  moreover have "is_space c" using r rc by (metis hd_dropWhile list.sel(1) ne)
  ultimately have "length (dropWhile is_space rest) < length rest"
    using rc length_dropWhile_le[of is_space cs] by simp
  moreover have "length rest \<le> length s" using r by (simp add: length_dropWhile_le)
  ultimately show "(dropWhile is_space rest, s) \<in> measure length" by simp
qed

declare split_ws.simps [simp del]

text \<open>
  \<^verbatim>\<open>const bookWord = slugify(collectionName.split(/\s+/)[0] ?? collectionName);
  const titleSlug = slugify(title).slice(0, 60);
  return `${bookWord}-${titleSlug}`;\<close>
\<close>

definition buildCitationKey :: "string \<Rightarrow> string \<Rightarrow> string" where
  "buildCitationKey collectionName title =
     (let bookWord = slugify (case split_ws collectionName of [] \<Rightarrow> collectionName | w # _ \<Rightarrow> w);
          titleSlug = take 60 (slugify title)
      in bookWord @ ''-'' @ titleSlug)"

subsection \<open>\<^verbatim>\<open>escapeCSV\<close>\<close>

text \<open>The double quote is \<open>CHR 0x22\<close>, the line feed \<open>CHR 0x0A\<close>.\<close>

definition dquote :: char where
  "dquote = CHR 0x22"

text \<open>\<^verbatim>\<open>val.replace(/"/g, '""')\<close>\<close>

definition double_quotes :: "string \<Rightarrow> string" where
  "double_quotes val = concat (map (\<lambda>c. if c = dquote then [dquote, dquote] else [c]) val)"

definition escapeCSV :: "string \<Rightarrow> string" where
  "escapeCSV val =
     (if CHR '','' \<in> set val \<or> dquote \<in> set val \<or> CHR 0x0A \<in> set val
      then [dquote] @ double_quotes val @ [dquote]
      else val)"

subsection \<open>\<^verbatim>\<open>guessSourceType\<close>\<close>

datatype SourceType = textbook | paper | presentation | dataset

text \<open>A pattern letter under the \<^verbatim>\<open>i\<close> flag matches the letter in either case. The patterns
  below are ASCII letters, which no other character of the range is folded to.\<close>

definition ci_char :: "char \<Rightarrow> char \<Rightarrow> bool" where
  "ci_char p c = (lower_char c = lower_char p)"

text \<open>Matching a literal at the start of the input, ignoring case: the rest of the input after
  the match, or \<open>None\<close>.\<close>

fun ci_prefix :: "string \<Rightarrow> string \<Rightarrow> string option" where
  "ci_prefix [] s = Some s"
| "ci_prefix (p # ps) [] = None"
| "ci_prefix (p # ps) (c # cs) = (if ci_char p c then ci_prefix ps cs else None)"

text \<open>The class \<^verbatim>\<open>[\s._-]\<close>.\<close>

definition is_sep :: "char \<Rightarrow> bool" where
  "is_sep c = (is_space c \<or> c = CHR ''.'' \<or> c = CHR ''_'' \<or> c = CHR ''-'')"

text \<open>\<^verbatim>\<open>[\s._-]*\d+\<close> at the start of the input. The star is greedy; giving separators back
  never helps, since no separator is a digit.\<close>

definition seps_then_digit :: "string \<Rightarrow> bool" where
  "seps_then_digit s = (case dropWhile is_sep s of [] \<Rightarrow> False | d # _ \<Rightarrow> is_digit d)"

text \<open>\<^verbatim>\<open>/^ch(apter)?[\s._-]*\d+/i\<close>: the optional group is tried first with, then without
  \<^verbatim>\<open>apter\<close>.\<close>

definition starts_ch_number :: "string \<Rightarrow> bool" where
  "starts_ch_number filename =
     (case ci_prefix ''ch'' filename of
        None \<Rightarrow> False
      | Some r \<Rightarrow>
          (case ci_prefix ''apter'' r of None \<Rightarrow> False | Some r' \<Rightarrow> seps_then_digit r')
          \<or> seps_then_digit r)"

text \<open>\<^verbatim>\<open>\b\<close> between two positions: exactly one of the neighbours is a word character (the
  start and the end of the input count as non-word).\<close>

definition word_boundary :: "char option \<Rightarrow> char option \<Rightarrow> bool" where
  "word_boundary a b =
     ((case a of None \<Rightarrow> False | Some c \<Rightarrow> is_word c) \<noteq> (case b of None \<Rightarrow> False | Some c \<Rightarrow> is_word c))"

text \<open>\<^verbatim>\<open>/\bw\b/i\<close> for a non-empty literal \<open>w\<close>, tried at every position from left to right;
  \<open>prev\<close> is the character before the current position.\<close>

fun match_word_from :: "string \<Rightarrow> char option \<Rightarrow> string \<Rightarrow> bool" where
  "match_word_from w prev [] = False"
| "match_word_from w prev (c # cs) =
     ((word_boundary prev (Some c)
       \<and> (case ci_prefix w (c # cs) of
            None \<Rightarrow> False
          | Some r \<Rightarrow>
              word_boundary (Some (last (take (length w) (c # cs))))
                (case r of [] \<Rightarrow> None | d # _ \<Rightarrow> Some d)))
      \<or> match_word_from w (Some c) cs)"

definition test_word :: "string \<Rightarrow> string \<Rightarrow> bool" where
  "test_word w filename = match_word_from w None filename"

text \<open>
  \<^verbatim>\<open>if (/^ch(apter)?[\s._-]*\d+/i.test(filename)) return 'textbook';
  if (/\bchapter\b/i.test(filename))              return 'textbook';
  if (/\bsection\b/i.test(filename))              return 'textbook';
  return 'paper';\<close>
\<close>

definition guessSourceType :: "string \<Rightarrow> SourceType" where
  "guessSourceType filename =
     (if starts_ch_number filename then textbook
      else if test_word ''chapter'' filename then textbook
      else if test_word ''section'' filename then textbook
      else paper)"

subsection \<open>The entries of the modal: \<^verbatim>\<open>addFiles\<close> and removal\<close>

text \<open>A browser \<^verbatim>\<open>File\<close>: its name, its size in bytes and its content.\<close>

record File =
  file_name :: string
  file_size :: nat
  file_bytes :: string

record FileEntry =
  entry_file :: File
  entry_title :: string
  entry_sourceType :: SourceType

text \<open>The functions of Node's \<^verbatim>\<open>path\<close> module are not part of the repository; they are
  parameters of the model.\<close>

record path_module =
  path_join :: "string list \<Rightarrow> string"
  path_basename :: "string \<Rightarrow> string \<Rightarrow> string"
  path_extname :: "string \<Rightarrow> string"

text \<open>\<^verbatim>\<open>basename(filename, extname(filename)).trim()\<close>\<close>

definition titleFromFilename :: "path_module \<Rightarrow> string \<Rightarrow> string" where
  "titleFromFilename P filename = trim (path_basename P filename (path_extname P filename))"

text \<open>
  \<^verbatim>\<open>for (let i = 0; i < files.length; i++) {
    const f = files[i] as File;
    if (!f.name.toLowerCase().endsWith('.pdf')) continue;
    if (this.entries.some(e => e.file.name === f.name && e.file.size === f.size)) continue;
    this.entries.push({ file: f, title: titleFromFilename(f.name),
                        sourceType: guessSourceType(f.name) });
  }\<close>
  The entries are the state; the function returns the new entries.
\<close>

fun addFiles :: "path_module \<Rightarrow> FileEntry list \<Rightarrow> File list \<Rightarrow> FileEntry list" where
  "addFiles P entries [] = entries"
| "addFiles P entries (f # files) =
     (if \<not> endsWith (toLowerCase (file_name f)) ''.pdf'' then addFiles P entries files
      else if list_ex (\<lambda>e. file_name (entry_file e) = file_name f
                          \<and> file_size (entry_file e) = file_size f) entries
      then addFiles P entries files
      else addFiles P
             (entries @ [\<lparr>entry_file = f,
                          entry_title = titleFromFilename P (file_name f),
                          entry_sourceType = guessSourceType (file_name f)\<rparr>])
             files)"

text \<open>The remove button of card \<open>i\<close>: \<^verbatim>\<open>this.entries.splice(i, 1)\<close>, which removes nothing when
  \<open>i\<close> is not an index of the array.\<close>

definition removeEntry :: "nat \<Rightarrow> FileEntry list \<Rightarrow> FileEntry list" where
  "removeEntry i entries = take i entries @ drop (Suc i) entries"

text \<open>The two input handlers of a card: \<^verbatim>\<open>entry.title = titleInput.value\<close> and
  \<^verbatim>\<open>entry.sourceType = typeSelect.value\<close>. A card exists only for an index of the array.\<close>

definition setTitle :: "nat \<Rightarrow> string \<Rightarrow> FileEntry list \<Rightarrow> FileEntry list" where
  "setTitle i t entries =
     (if i < length entries then entries[i := (entries ! i)\<lparr>entry_title := t\<rparr>] else entries)"

definition setSourceType :: "nat \<Rightarrow> SourceType \<Rightarrow> FileEntry list \<Rightarrow> FileEntry list" where
  "setSourceType i ty entries =
     (if i < length entries then entries[i := (entries ! i)\<lparr>entry_sourceType := ty\<rparr>] else entries)"

text \<open>The operations that change the entries of an open modal, and a run of them from the
  initial \<^verbatim>\<open>entries = []\<close>.\<close>

datatype entries_op =
    AddFiles "File list"
  | Remove nat
  | SetTitle nat string
  | SetSourceType nat SourceType

fun apply_entries_op :: "path_module \<Rightarrow> FileEntry list \<Rightarrow> entries_op \<Rightarrow> FileEntry list" where
  "apply_entries_op P entries (AddFiles files) = addFiles P entries files"
| "apply_entries_op P entries (Remove i) = removeEntry i entries"
| "apply_entries_op P entries (SetTitle i t) = setTitle i t entries"
| "apply_entries_op P entries (SetSourceType i ty) = setSourceType i ty entries"

definition run_entries_ops :: "path_module \<Rightarrow> entries_op list \<Rightarrow> FileEntry list" where
  "run_entries_ops P ops = foldl (apply_entries_op P) [] ops"

subsection \<open>Settings and saved collections (\<^verbatim>\<open>src/src/settings.ts\<close>)\<close>

record SavedCollection =
  sc_name :: string
  sc_year :: string
  sc_authors :: string
  sc_defaultSourceType :: SourceType

record OtooracleSettings =
  pipelineDir :: string
  pythonPath :: string
  autoRefreshSec :: nat
  savedCollections :: "SavedCollection list"

text \<open>\<^verbatim>\<open>DEFAULT_SETTINGS\<close>, with which a fresh installation starts.\<close>

definition DEFAULT_SETTINGS :: OtooracleSettings where
  "DEFAULT_SETTINGS =
     \<lparr>pipelineDir = ''/Users/gabolin/Documents/ent-pipeline'',
      pythonPath = ''/Users/gabolin/Documents/ent-pipeline/.venv/bin/python3'',
      autoRefreshSec = 30,
      savedCollections = []\<rparr>"

text \<open>The value of a \<^verbatim>\<open>SourceType\<close> is the string of its name.\<close>

fun sourceType_str :: "SourceType \<Rightarrow> string" where
  "sourceType_str textbook = ''textbook''"
| "sourceType_str paper = ''paper''"
| "sourceType_str presentation = ''presentation''"
| "sourceType_str dataset = ''dataset''"

subsection \<open>The modal and its surroundings as a state\<close>

text \<open>The filesystem calls of \<^verbatim>\<open>submit\<close>: \<^verbatim>\<open>mkdir(dir, {recursive: true})\<close> and
  \<^verbatim>\<open>writeFile(path, data)\<close>.\<close>

datatype fs_op = Mkdir string | WriteFile string string

text \<open>The state \<^verbatim>\<open>submit\<close> reads and changes: the entries and the three input fields of the
  modal, the settings of the plugin, and the record of what happened outside: the filesystem
  calls that succeeded, the settings written by \<^verbatim>\<open>saveData\<close>, the notices shown, whether
  the modal was closed, and the calls of \<^verbatim>\<open>runIngest\<close>. The enabling and the label of the
  two buttons are not part of it.\<close>

record world =
  entries :: "FileEntry list"
  collectionInput :: string
  yearInput :: string
  authorsInput :: string
  settings :: OtooracleSettings
  fs_log :: "fs_op list"
  saved_data :: "OtooracleSettings list"
  notices :: "string list"
  modal_closed :: bool
  ingest_calls :: "(string \<times> bool) list"

text \<open>What the surroundings decide: the \<^verbatim>\<open>path\<close> module, the clock
  (\<^verbatim>\<open>new Date().toISOString()\<close>), and which call throws, with the text of the exception:
  reading a file (\<^verbatim>\<open>arrayBuffer()\<close>), a filesystem call, given the calls that succeeded
  before, or \<^verbatim>\<open>saveData\<close>.\<close>

record env =
  path_mod :: path_module
  now_iso :: string
  read_error :: "File \<Rightarrow> string option"
  fs_error :: "fs_op list \<Rightarrow> fs_op \<Rightarrow> string option"
  save_error :: "OtooracleSettings \<Rightarrow> string option"

subsection \<open>\<^verbatim>\<open>validate\<close>\<close>

text \<open>
  \<^verbatim>\<open>if (this.entries.length === 0)               return 'Add at least one PDF.';
  if (!this.collectionInput.value.trim())      return 'Enter a collection name.';
  if (!this.yearInput.value.trim())            return 'Enter a year or edition.';
  for (const e of this.entries) {
    if (!e.title.trim()) return `A file is missing a title (${e.file.name}).`;
  }
  return null;\<close>
\<close>

definition validate :: "world \<Rightarrow> string option" where
  "validate w =
     (if entries w = [] then Some ''Add at least one PDF.''
      else if trim (collectionInput w) = [] then Some ''Enter a collection name.''
      else if trim (yearInput w) = [] then Some ''Enter a year or edition.''
      else (case find (\<lambda>e. trim (entry_title e) = []) (entries w) of
              Some e \<Rightarrow> Some (''A file is missing a title ('' @ file_name (entry_file e) @ '').'')
            | None \<Rightarrow> None))"

subsection \<open>\<^verbatim>\<open>submit\<close>\<close>

text \<open>One filesystem call: it throws and changes nothing recorded, or succeeds and is
  recorded.\<close>

definition fs_do :: "env \<Rightarrow> fs_op \<Rightarrow> world \<Rightarrow> string option \<times> world" where
  "fs_do E op w =
     (case fs_error E (fs_log w) op of
        Some e \<Rightarrow> (Some e, w)
      | None \<Rightarrow> (None, w\<lparr>fs_log := fs_log w @ [op]\<rparr>))"

text \<open>
  \<^verbatim>\<open>for (const entry of this.entries) {
    const dest = join(destDir, entry.file.name);
    const buf = Buffer.from(await entry.file.arrayBuffer());
    await writeFile(dest, buf);
    destPaths.push(dest);
  }\<close>
\<close>

fun copy_entries ::
  "env \<Rightarrow> string \<Rightarrow> FileEntry list \<Rightarrow> string list \<Rightarrow> world \<Rightarrow> (string + string list) \<times> world"
where
  "copy_entries E destDir [] destPaths w = (Inr destPaths, w)"
| "copy_entries E destDir (entry # rest) destPaths w =
     (let dest = path_join (path_mod E) [destDir, file_name (entry_file entry)]
      in case read_error E (entry_file entry) of
           Some e \<Rightarrow> (Inl e, w)
         | None \<Rightarrow>
        (case fs_do E (WriteFile dest (file_bytes (entry_file entry))) w of
           (Some e, w') \<Rightarrow> (Inl e, w')
         | (None, w') \<Rightarrow> copy_entries E destDir rest (destPaths @ [dest]) w'))"

definition manifest_header :: string where
  "manifest_header =
     ''source_path,source_type,book_or_collection,chapter_or_title,edition_or_year,authors,citation_key,region,priority,notes''"

text \<open>The rows of the manifest: \<^verbatim>\<open>this.entries.map((entry, idx) => [...].join(','))\<close>, where
  \<^verbatim>\<open>destPaths[idx] ?? ''\<close> is the empty string outside the array.\<close>

definition manifest_row ::
  "string list \<Rightarrow> string \<Rightarrow> string \<Rightarrow> string \<Rightarrow> nat \<times> FileEntry \<Rightarrow> string" where
  "manifest_row destPaths collectionName year authors ie =
     (case ie of (idx, entry) \<Rightarrow>
        (let citationKey = buildCitationKey collectionName (entry_title entry)
         in join_with '',''
              [escapeCSV (if idx < length destPaths then destPaths ! idx else []),
               escapeCSV (sourceType_str (entry_sourceType entry)),
               escapeCSV collectionName,
               escapeCSV (entry_title entry),
               escapeCSV year,
               escapeCSV authors,
               escapeCSV citationKey,
               ''general'',
               ''normal'',
               []]))"

definition csvContent ::
  "FileEntry list \<Rightarrow> string list \<Rightarrow> string \<Rightarrow> string \<Rightarrow> string \<Rightarrow> string" where
  "csvContent es destPaths collectionName year authors =
     join_with [CHR 0x0A]
       (manifest_header
        # map (manifest_row destPaths collectionName year authors) (zip [0..<length es] es))"

text \<open>\<^verbatim>\<open>new Date().toISOString().replace(/[:.]/g, '-').slice(0, 19)\<close>\<close>

definition timestamp :: "string \<Rightarrow> string" where
  "timestamp t = take 19 (map (\<lambda>c. if c = CHR '':'' \<or> c = CHR ''.'' then CHR ''-'' else c) t)"

text \<open>\<^verbatim>\<open>findIndex\<close>, with \<open>None\<close> for \<open>-1\<close>.\<close>

fun findIndex :: "('a \<Rightarrow> bool) \<Rightarrow> 'a list \<Rightarrow> nat option" where
  "findIndex p [] = None"
| "findIndex p (x # xs) = (if p x then Some 0 else map_option Suc (findIndex p xs))"

text \<open>
  \<^verbatim>\<open>const idx = existing.findIndex(c => c.name === collectionName);
  if (idx >= 0) existing[idx] = col;
  else existing.push(col);\<close>
  where \<^verbatim>\<open>col.name\<close> is \<^verbatim>\<open>collectionName\<close>.
\<close>

definition upsert :: "SavedCollection \<Rightarrow> SavedCollection list \<Rightarrow> SavedCollection list" where
  "upsert col existing =
     (case findIndex (\<lambda>c. sc_name c = sc_name col) existing of
        Some idx \<Rightarrow> existing[idx := col]
      | None \<Rightarrow> existing @ [col])"

text \<open>The body of the \<^verbatim>\<open>try\<close> up to \<^verbatim>\<open>this.close()\<close>: the path of the manifest, or the
  text of the exception thrown, with the state reached.\<close>

definition prepare :: "env \<Rightarrow> world \<Rightarrow> (string + string) \<times> world" where
  "prepare E w =
     (let collectionName = trim (collectionInput w);
          year = trim (yearInput w);
          authors = trim (authorsInput w);
          dir = pipelineDir (settings w);
          collectionSlug = slugify collectionName;
          destDir = path_join (path_mod E) [dir, ''raw-pdfs'', collectionSlug]
      in case fs_do E (Mkdir destDir) w of
           (Some e, w1) \<Rightarrow> (Inl e, w1)
         | (None, w1) \<Rightarrow>
        (case copy_entries E destDir (entries w1) [] w1 of
           (Inl e, w2) \<Rightarrow> (Inl e, w2)
         | (Inr destPaths, w2) \<Rightarrow>
        (let csv = csvContent (entries w2) destPaths collectionName year authors;
             ts = timestamp (now_iso E);
             manifestName = collectionSlug @ ''-'' @ ts @ ''.manifest.csv'';
             manifestPath = path_join (path_mod E) [dir, ''data'', ''manifests'', manifestName]
         in case fs_do E (Mkdir (path_join (path_mod E) [dir, ''data'', ''manifests''])) w2 of
              (Some e, w3) \<Rightarrow> (Inl e, w3)
            | (None, w3) \<Rightarrow>
           (case fs_do E (WriteFile manifestPath csv) w3 of
              (Some e, w4) \<Rightarrow> (Inl e, w4)
            | (None, w4) \<Rightarrow>
           (let col = \<lparr>sc_name = collectionName, sc_year = year, sc_authors = authors,
                       sc_defaultSourceType =
                         (case entries w4 of [] \<Rightarrow> textbook | e # _ \<Rightarrow> entry_sourceType e)\<rparr>;
                w5 = w4\<lparr>settings := (settings w4)
                          \<lparr>savedCollections := upsert col (savedCollections (settings w4))\<rparr>\<rparr>
            in case save_error E (settings w5) of
                 Some e \<Rightarrow> (Inl e, w5)
               | None \<Rightarrow>
                   (Inr manifestPath,
                    w5\<lparr>saved_data := saved_data w5 @ [settings w5], modal_closed := True\<rparr>))))))"

text \<open>
  \<^verbatim>\<open>const err = this.validate();
  if (err) { new Notice(err); return; }
  try { ...; this.close(); await this.view.runIngest(manifestPath, dryRun); }
  catch (e) { new Notice(`Failed to prepare ingest: ${e}`); ... }\<close>
  \<^verbatim>\<open>runIngest\<close> handles its own exceptions; its call is recorded.
\<close>

definition submit :: "env \<Rightarrow> bool \<Rightarrow> world \<Rightarrow> world" where
  "submit E dryRun w =
     (case validate w of
        Some err \<Rightarrow> w\<lparr>notices := notices w @ [err]\<rparr>
      | None \<Rightarrow>
          (case prepare E w of
             (Inl e, w') \<Rightarrow> w'\<lparr>notices := notices w' @ [''Failed to prepare ingest: '' @ e]\<rparr>
           | (Inr manifestPath, w') \<Rightarrow>
               w'\<lparr>ingest_calls := ingest_calls w' @ [(manifestPath, dryRun)]\<rparr>))"

subsection \<open>\<^verbatim>\<open>runPipelineCmd\<close>\<close>

text \<open>An \<^verbatim>\<open>Error\<close> object with its message.\<close>

datatype error = Error string

text \<open>What the child process does, as the events the three listeners see, in order: a chunk on
  standard output, a chunk on standard error (each already as the text of
  \<^verbatim>\<open>chunk.toString()\<close>), \<^verbatim>\<open>close\<close> with the exit code (\<^verbatim>\<open>null\<close> when a signal ended the
  process), and \<^verbatim>\<open>error\<close>. \<^verbatim>\<open>spawn\<close> itself may throw instead.\<close>

datatype proc_event =
    StdoutData string
  | StderrData string
  | Close "int option"
  | ErrorEvent error

datatype spawn_result = SpawnThrows error | Spawned "proc_event list"

record spawn_request =
  spawn_command :: string
  spawn_args :: "string list"
  spawn_cwd :: string

text \<open>A number in a template literal: decimal digits, with a minus sign when negative.\<close>

function string_of_nat :: "nat \<Rightarrow> string" where
  "string_of_nat n =
     (if n < 10 then [char_of (48 + n)] else string_of_nat (n div 10) @ [char_of (48 + n mod 10)])"
  by pat_completeness auto
termination
  by (relation "measure id") auto

declare string_of_nat.simps [simp del]

definition string_of_int :: "int \<Rightarrow> string" where
  "string_of_int i = (if i < 0 then ''-'' @ string_of_nat (nat (- i)) else string_of_nat (nat i))"

definition string_of_code :: "int option \<Rightarrow> string" where
  "string_of_code c = (case c of None \<Rightarrow> ''null'' | Some i \<Rightarrow> string_of_int i)"

text \<open>
  \<^verbatim>\<open>proc.stdout.on('data', chunk => { stdout += chunk.toString(); });
  proc.stderr.on('data', chunk => { stderr += chunk.toString(); });
  proc.on('close', code => {
    if (code !== 0) reject(new Error(stderr.trim() || `Process exited with code ${code}`));
    else resolve(stdout);
  });
  proc.on('error', err => reject(err));\<close>
  The promise is settled by the first \<^verbatim>\<open>close\<close> or \<^verbatim>\<open>error\<close> event; later calls of
  \<^verbatim>\<open>resolve\<close> and \<^verbatim>\<open>reject\<close> do nothing. Without such an event it stays pending: \<open>None\<close>.
\<close>

fun settle :: "string \<Rightarrow> string \<Rightarrow> proc_event list \<Rightarrow> (error + string) option" where
  "settle out err [] = None"
| "settle out err (StdoutData chunk # evs) = settle (out @ chunk) err evs"
| "settle out err (StderrData chunk # evs) = settle out (err @ chunk) evs"
| "settle out err (Close c # evs) =
     (if c \<noteq> Some 0
      then Some (Inl (Error (if trim err \<noteq> [] then trim err
                             else ''Process exited with code '' @ string_of_code c)))
      else Some (Inr out))"
| "settle out err (ErrorEvent e # evs) = Some (Inl e)"

text \<open>
  \<^verbatim>\<open>const scriptPath = join(pipelineDir, 'scripts', 'pipeline.py');
  const proc = spawn(pythonPath, [scriptPath, ...args], { cwd: pipelineDir, env: {...} });\<close>
  The operating system \<open>os\<close> answers the request with the behaviour of the process.
\<close>

definition runPipelineCmd ::
  "path_module \<Rightarrow> OtooracleSettings \<Rightarrow> (spawn_request \<Rightarrow> spawn_result) \<Rightarrow> string list
     \<Rightarrow> (error + string) option" where
  "runPipelineCmd P st os args =
     (let scriptPath = path_join P [pipelineDir st, ''scripts'', ''pipeline.py'']
      in case os \<lparr>spawn_command = pythonPath st, spawn_args = scriptPath # args,
                  spawn_cwd = pipelineDir st\<rparr> of
           SpawnThrows e \<Rightarrow> Some (Inl e)
         | Spawned evs \<Rightarrow> settle [] [] evs)"

subsection \<open>The descriptions of the specification\<close>

text \<open>The functions and predicates of this subsection follow the words of the specification,
  not the source; the theorems of Part II compare them with the functions above.\<close>

text \<open>Collapsing the runs of a class of characters to a single character \<open>h\<close>: a character of
  the class is dropped when the next one is of the class too, and becomes \<open>h\<close> otherwise.\<close>

fun squeeze :: "(char \<Rightarrow> bool) \<Rightarrow> char \<Rightarrow> string \<Rightarrow> string" where
  "squeeze p h [] = []"
| "squeeze p h [c] = [if p c then h else c]"
| "squeeze p h (c # d # cs) =
     (if p c then (if p d then squeeze p h (d # cs) else h # squeeze p h (d # cs))
      else c # squeeze p h (d # cs))"

text \<open>Trimming the leading and trailing hyphens: all of them, at both ends.\<close>

definition trim_hyphens :: "string \<Rightarrow> string" where
  "trim_hyphens s =
     rev (dropWhile (\<lambda>c. c = CHR ''-'') (rev (dropWhile (\<lambda>c. c = CHR ''-'') s)))"

text \<open>Stripping the characters that are no word characters. White space and hyphens stay: the
  later steps of the description work on them, and its example \<open>grays-anatomy\<close> keeps the
  place of the space.\<close>

definition strip_non_word :: "string \<Rightarrow> string" where
  "strip_non_word s = filter (\<lambda>c. is_word c \<or> is_space c \<or> c = CHR ''-'') s"

text \<open>The slug as the specification describes it: lower case, strip the non-word characters,
  collapse the runs of white space to single hyphens, trim the hyphens at both ends.\<close>

definition slugify_described :: "string \<Rightarrow> string" where
  "slugify_described s =
     trim_hyphens (squeeze is_space (CHR ''-'') (strip_non_word (toLowerCase s)))"

text \<open>The same with one more step, before the trimming: the runs of hyphens are collapsed to
  single hyphens.\<close>

definition slugify_steps :: "string \<Rightarrow> string" where
  "slugify_steps s =
     trim_hyphens
       (squeeze (\<lambda>c. c = CHR ''-'') (CHR ''-'')
         (squeeze is_space (CHR ''-'') (strip_non_word (toLowerCase s))))"

text \<open>The first white-space-delimited token of a string: what stands before its first
  white-space character.\<close>

definition first_token :: "string \<Rightarrow> string" where
  "first_token s = takeWhile (\<lambda>c. \<not> is_space c) s"

text \<open>The citation key as the specification describes it: the title is cut to 60 characters
  and then slugified.\<close>

definition citation_key_described :: "string \<Rightarrow> string \<Rightarrow> string" where
  "citation_key_described collectionName title =
     slugify (first_token collectionName) @ ''-'' @ slugify (take 60 title)"

text \<open>A reader of CSV fields: one layer of surrounding quotes is stripped, and each doubled
  quote inside becomes a single one, from left to right.\<close>

definition strip_quotes :: "string \<Rightarrow> string" where
  "strip_quotes s =
     (if 2 \<le> length s \<and> hd s = dquote \<and> last s = dquote then butlast (tl s) else s)"

fun undouble :: "string \<Rightarrow> string" where
  "undouble (a # b # cs) =
     (if a = dquote \<and> b = dquote then dquote # undouble cs else a # undouble (b # cs))"
| "undouble cs = cs"

definition csv_read_field :: "string \<Rightarrow> string" where
  "csv_read_field s = undouble (strip_quotes s)"

text \<open>A name starts with \<open>ch\<close> or \<open>chapter\<close>, in any mix of cases, followed by a number: after
  the letters come separators (white space, dot, underscore, hyphen; possibly none) and then a
  digit.\<close>

definition starts_with_ch_and_number :: "string \<Rightarrow> bool" where
  "starts_with_ch_and_number s =
     (\<exists>k seps d rest. s = k @ seps @ d # rest
        \<and> (toLowerCase k = ''ch'' \<or> toLowerCase k = ''chapter'')
        \<and> (\<forall>c\<in>set seps. is_sep c) \<and> is_digit d)"

text \<open>A name contains the word \<open>w\<close>, in any mix of cases: an occurrence of \<open>w\<close> with no word
  character directly before or after it.\<close>

definition contains_the_word :: "string \<Rightarrow> string \<Rightarrow> bool" where
  "contains_the_word w s =
     (\<exists>pre m suf. s = pre @ m @ suf \<and> toLowerCase m = w
        \<and> (pre = [] \<or> \<not> is_word (last pre)) \<and> (suf = [] \<or> \<not> is_word (hd suf)))"

subsection \<open>Notions used in the statements\<close>

text \<open>The key by which \<^verbatim>\<open>addFiles\<close> recognises a file, and the invariant of the entries: no
  two entries have the same key.\<close>

definition file_key :: "FileEntry \<Rightarrow> string \<times> nat" where
  "file_key e = (file_name (entry_file e), file_size (entry_file e))"

definition unique_files :: "FileEntry list \<Rightarrow> bool" where
  "unique_files es = distinct (map file_key es)"

definition is_pdf :: "File \<Rightarrow> bool" where
  "is_pdf f = endsWith (toLowerCase (file_name f)) ''.pdf''"

text \<open>A successful submit: the validation passes and the body of the \<^verbatim>\<open>try\<close> runs to its
  end, giving the path of the manifest.\<close>

definition submit_succeeds :: "env \<Rightarrow> world \<Rightarrow> string \<Rightarrow> bool" where
  "submit_succeeds E w manifestPath = (validate w = None \<and> fst (prepare E w) = Inr manifestPath)"

text \<open>The record \<^verbatim>\<open>submit\<close> saves.\<close>

definition saved_record :: "world \<Rightarrow> SavedCollection" where
  "saved_record w =
     \<lparr>sc_name = trim (collectionInput w), sc_year = trim (yearInput w),
      sc_authors = trim (authorsInput w),
      sc_defaultSourceType = (case entries w of [] \<Rightarrow> textbook | e # _ \<Rightarrow> entry_sourceType e)\<rparr>"

text \<open>The path of the manifest that \<^verbatim>\<open>submit\<close> writes.\<close>

definition manifestPath_of :: "env \<Rightarrow> world \<Rightarrow> string" where
  "manifestPath_of E w =
     path_join (path_mod E)
       [pipelineDir (settings w), ''data'', ''manifests'',
        slugify (trim (collectionInput w)) @ ''-'' @ timestamp (now_iso E) @ ''.manifest.csv'']"

text \<open>The request \<^verbatim>\<open>runPipelineCmd\<close> hands to \<^verbatim>\<open>spawn\<close>, and the text captured from the
  data events that precede the end of the process.\<close>

definition spawn_request_of :: "path_module \<Rightarrow> OtooracleSettings \<Rightarrow> string list \<Rightarrow> spawn_request" where
  "spawn_request_of P st args =
     \<lparr>spawn_command = pythonPath st,
      spawn_args = path_join P [pipelineDir st, ''scripts'', ''pipeline.py''] # args,
      spawn_cwd = pipelineDir st\<rparr>"

fun is_data :: "proc_event \<Rightarrow> bool" where
  "is_data (StdoutData chunk) = True"
| "is_data (StderrData chunk) = True"
| "is_data (Close c) = False"
| "is_data (ErrorEvent e) = False"

fun stdout_text :: "proc_event list \<Rightarrow> string" where
  "stdout_text [] = []"
| "stdout_text (StdoutData chunk # evs) = chunk @ stdout_text evs"
| "stdout_text (ev # evs) = stdout_text evs"

fun stderr_text :: "proc_event list \<Rightarrow> string" where
  "stderr_text [] = []"
| "stderr_text (StderrData chunk # evs) = chunk @ stderr_text evs"
| "stderr_text (ev # evs) = stderr_text evs"

subsection \<open>Instances for worked examples\<close>

text \<open>An instance of the \<^verbatim>\<open>path\<close> functions for worked examples (the theorems hold for any
  instance): joining with a slash, the extension from the last dot on, the base name without
  that suffix.\<close>

definition example_path :: path_module where
  "example_path =
     \<lparr>path_join = join_with ''/'',
      path_basename = (\<lambda>p ext. if endsWith p ext then take (length p - length ext) p else p),
      path_extname = (\<lambda>p. if CHR ''.'' \<in> set p
                           then CHR ''.'' # rev (takeWhile (\<lambda>c. c \<noteq> CHR ''.'') (rev p))
                           else [])\<rparr>"

text \<open>Surroundings for worked examples: every call succeeds.\<close>

definition example_env :: env where
  "example_env =
     \<lparr>path_mod = example_path, now_iso = ''2026-01-02T03:04:05.678Z'',
      read_error = (\<lambda>f. None), fs_error = (\<lambda>done op. None), save_error = (\<lambda>st. None)\<rparr>"

text \<open>A modal with one file, collection \<open>Gray's Anatomy\<close> and year \<open>2023\<close>, over given saved
  collections.\<close>

definition example_world :: "string \<Rightarrow> SavedCollection list \<Rightarrow> world" where
  "example_world title saved =
     \<lparr>entries = [\<lparr>entry_file = \<lparr>file_name = ''Ch. 1.pdf'', file_size = 3, file_bytes = ''abc''\<rparr>,
                  entry_title = title, entry_sourceType = textbook\<rparr>],
      collectionInput = '' Gray's Anatomy '',
      yearInput = ''2023'',
      authorsInput = ''Gray, H.'',
      settings = \<lparr>pipelineDir = ''/p'', pythonPath = ''python3'', autoRefreshSec = 30,
                  savedCollections = saved\<rparr>,
      fs_log = [],
      saved_data = [],
      notices = [],
      modal_closed = False,
      ingest_calls = []\<rparr>"

subsection \<open>Notions used in the proofs\<close>

text \<open>No two neighbours are both \<open>h\<close>.\<close>

fun no_adj :: "char \<Rightarrow> string \<Rightarrow> bool" where
  "no_adj h (a # b # cs) = (\<not> (a = h \<and> b = h) \<and> no_adj h (b # cs))"
| "no_adj h cs = True"

text \<open>The characters a slug is made of: \<open>a-z\<close>, \<open>0-9\<close>, underscore and hyphen.\<close>

definition slug_char :: "char \<Rightarrow> bool" where
  "slug_char c = ((is_word c \<or> c = CHR ''-'') \<and> \<not> is_upper c)"

definition lead_hyphen :: "string \<Rightarrow> string" where
  "lead_hyphen s = (case s of [] \<Rightarrow> [] | c # cs \<Rightarrow> if c = CHR ''-'' then cs else s)"

section \<open>Part II: verification\<close>

subsection \<open>Properties of \<^verbatim>\<open>slugify\<close>\<close>

lemma lower_char_not_upper: "\<not> is_upper (lower_char c)"
  by (auto simp: lower_char_def is_upper_def code_def)

lemma lower_char_fix: "\<not> is_upper c \<Longrightarrow> lower_char c = c"
  by (simp add: lower_char_def)

lemma toLowerCase_fix: "\<forall>c\<in>set s. \<not> is_upper c \<Longrightarrow> toLowerCase s = s"
  by (induction s) (simp_all add: toLowerCase_def lower_char_fix)

lemma hyphen_not_space: "\<not> is_space (CHR ''-'')"
  by (simp add: is_space_def code_def)

lemma hyphen_not_upper: "\<not> is_upper (CHR ''-'')"
  by (simp add: is_upper_def code_def)

lemma replace_runs_set: "set (replace_runs p r s) \<subseteq> set s \<union> set r"
proof (induction p r s rule: replace_runs.induct)
  case (1 p r)
  show ?case by simp
next
  case (2 p r c cs)
  show ?case
  proof (cases "p c")
    case True
    with 2 have "set (replace_runs p r (dropWhile p cs)) \<subseteq> set (dropWhile p cs) \<union> set r" by simp
    moreover have "set (dropWhile p cs) \<subseteq> set cs" by (rule set_dropWhileD[THEN subsetI])
    ultimately show ?thesis using True by auto
  next
    case False
    with 2 show ?thesis by auto
  qed
qed

lemma replace_runs_none: "\<forall>c\<in>set r. \<not> p c \<Longrightarrow> c \<in> set (replace_runs p r s) \<Longrightarrow> \<not> p c"
  by (induction p r s rule: replace_runs.induct) (auto split: if_splits)

lemma replace_runs_id: "\<forall>c\<in>set s. \<not> p c \<Longrightarrow> replace_runs p r s = s"
  by (induction s) simp_all

lemma dropWhile_hd: "dropWhile p cs = d # ds \<Longrightarrow> \<not> p d"
  by (metis hd_dropWhile list.distinct(1) list.sel(1))

lemma replace_runs_no_adj: "no_adj h (replace_runs (\<lambda>c. c = h) [h] s)"
proof (induction "\<lambda>c. c = h" "[h]" s rule: replace_runs.induct)
  case 1
  show ?case by simp
next
  case (2 c cs)
  show ?case
  proof (cases "c = h")
    case True
    show ?thesis
    proof (cases "dropWhile (\<lambda>c. c = h) cs")
      case Nil
      with True show ?thesis by (simp del: dropWhile_eq_Nil_conv)
    next
      case (Cons d ds)
      then have "d \<noteq> h" using dropWhile_hd[of "\<lambda>c. c = h" cs d ds] by simp
      with 2(1) True Cons show ?thesis by simp
    qed
  next
    case False
    with 2(2) show ?thesis by (cases "replace_runs (\<lambda>c. c = h) [h] cs") auto
  qed
qed

lemma no_adj_replace_id: "no_adj h s \<Longrightarrow> replace_runs (\<lambda>c. c = h) [h] s = s"
proof (induction h s rule: no_adj.induct)
  case (1 h a b cs)
  then show ?case by auto
qed simp_all

lemma no_adj_tl: "no_adj h (a # s) \<Longrightarrow> no_adj h s"
  by (cases s) auto

lemma no_adj_butlast: "no_adj h s \<Longrightarrow> no_adj h (butlast s)"
proof (induction h s rule: no_adj.induct)
  case (1 h a b cs)
  then show ?case by (cases cs) auto
qed simp_all

lemma no_adj_last: "no_adj h s \<Longrightarrow> s \<noteq> [] \<Longrightarrow> last s = h \<Longrightarrow> butlast s \<noteq> [] \<Longrightarrow> last (butlast s) \<noteq> h"
proof (induction h s rule: no_adj.induct)
  case (1 h a b cs)
  then show ?case by (cases cs) (auto split: if_splits)
qed simp_all

lemma rev_dropWhile_rev:
  assumes "s \<noteq> [] \<Longrightarrow> p (last s) \<Longrightarrow> butlast s \<noteq> [] \<Longrightarrow> \<not> p (last (butlast s))"
  shows "rev (dropWhile p (rev s)) = (if s \<noteq> [] \<and> p (last s) then butlast s else s)"
proof (cases s rule: rev_cases)
  case Nil
  then show ?thesis by simp
next
  case (snoc ys y)
  show ?thesis
  proof (cases "p y")
    case False
    with snoc show ?thesis by simp
  next
    case True
    have "dropWhile p (rev ys) = rev ys"
    proof (cases ys rule: rev_cases)
      case Nil
      then show ?thesis by simp
    next
      case (snoc zs z)
      with assms \<open>s = ys @ [y]\<close> True have "\<not> p z" by (simp add: butlast_append)
      with snoc show ?thesis by simp
    qed
    with snoc True show ?thesis by simp
  qed
qed

lemma strip_edge_hyphens_trim:
  assumes "no_adj (CHR ''-'') s"
  shows "strip_edge_hyphens s = trim_hyphens s"
proof -
  let ?h = "CHR ''-''"
  define t where "t = (case s of [] \<Rightarrow> [] | c # cs \<Rightarrow> if c = ?h then cs else s)"
  have t1: "dropWhile (\<lambda>c. c = ?h) s = t"
  proof (cases s)
    case Nil
    then show ?thesis by (simp add: t_def)
  next
    case (Cons c cs)
    show ?thesis
    proof (cases "c = ?h")
      case False
      with Cons show ?thesis by (simp add: t_def)
    next
      case True
      have "dropWhile (\<lambda>c. c = ?h) cs = cs"
        using assms Cons True by (cases cs) auto
      with Cons True show ?thesis by (simp add: t_def)
    qed
  qed
  have nt: "no_adj ?h t"
    using assms by (cases s) (auto simp: t_def dest: no_adj_tl)
  have "rev (dropWhile (\<lambda>c. c = ?h) (rev t)) = (if t \<noteq> [] \<and> last t = ?h then butlast t else t)"
    using no_adj_last[OF nt] by (intro rev_dropWhile_rev) auto
  then show ?thesis
    by (simp add: strip_edge_hyphens_def trim_hyphens_def t1 t_def[symmetric] Let_def)
qed


lemma strip_edge_hyphens_alt:
  "strip_edge_hyphens s =
     (if lead_hyphen s \<noteq> [] \<and> last (lead_hyphen s) = CHR ''-'' then butlast (lead_hyphen s) else lead_hyphen s)"
  by (simp add: strip_edge_hyphens_def lead_hyphen_def Let_def)

lemma lead_hyphen_set: "set (lead_hyphen s) \<subseteq> set s"
  by (cases s) (auto simp: lead_hyphen_def)

lemma strip_edge_hyphens_set: "set (strip_edge_hyphens s) \<subseteq> set s"
  using lead_hyphen_set[of s] by (auto simp: strip_edge_hyphens_alt dest: in_set_butlastD)

lemma lead_hyphen_no_adj: "no_adj h s \<Longrightarrow> no_adj h (lead_hyphen s)"
  by (cases s) (auto simp: lead_hyphen_def dest: no_adj_tl)

lemma lead_hyphen_hd: "no_adj (CHR ''-'') s \<Longrightarrow> lead_hyphen s \<noteq> [] \<Longrightarrow> hd (lead_hyphen s) \<noteq> CHR ''-''"
proof (cases s)
  case Nil
  assume "lead_hyphen s \<noteq> []"
  with Nil show ?thesis by (simp add: lead_hyphen_def)
next
  case (Cons c cs)
  assume "no_adj (CHR ''-'') s" and "lead_hyphen s \<noteq> []"
  with Cons show ?thesis by (cases cs) (auto simp: lead_hyphen_def)
qed

lemma strip_edge_hyphens_fix:
  assumes "s \<noteq> [] \<Longrightarrow> hd s \<noteq> CHR ''-'' \<and> last s \<noteq> CHR ''-''"
  shows "strip_edge_hyphens s = s"
  using assms by (cases s) (auto simp: strip_edge_hyphens_def)

lemma strip_edge_hyphens_hd_last:
  assumes "no_adj (CHR ''-'') s" and "strip_edge_hyphens s \<noteq> []"
  shows "hd (strip_edge_hyphens s) \<noteq> CHR ''-'' \<and> last (strip_edge_hyphens s) \<noteq> CHR ''-''"
proof -
  let ?t = "lead_hyphen s"
  have nt: "no_adj (CHR ''-'') ?t" using assms(1) by (rule lead_hyphen_no_adj)
  show ?thesis
  proof (cases "?t \<noteq> [] \<and> last ?t = CHR ''-''")
    case True
    then have eq: "strip_edge_hyphens s = butlast ?t" by (simp add: strip_edge_hyphens_alt)
    with assms(2) have ne: "butlast ?t \<noteq> []" by simp
    have "last (butlast ?t) \<noteq> CHR ''-''" using no_adj_last[OF nt] True ne by simp
    moreover have "hd (butlast ?t) = hd ?t" using ne by (cases ?t) auto
    moreover have "hd ?t \<noteq> CHR ''-''" using lead_hyphen_hd[OF assms(1)] True by simp
    ultimately show ?thesis using eq by simp
  next
    case False
    then have eq: "strip_edge_hyphens s = ?t" by (auto simp: strip_edge_hyphens_alt)
    with assms(2) have "?t \<noteq> []" by simp
    with False lead_hyphen_hd[OF assms(1)] eq show ?thesis by simp
  qed
qed

lemma strip_edge_hyphens_no_adj: "no_adj h s \<Longrightarrow> no_adj h (strip_edge_hyphens s)"
  by (simp add: strip_edge_hyphens_alt lead_hyphen_no_adj no_adj_butlast)

lemma slugify_chars: "c \<in> set (slugify str) \<Longrightarrow> slug_char c"
proof -
  let ?a = "filter (\<lambda>c. is_word c \<or> is_space c \<or> c = CHR ''-'') (toLowerCase str)"
  let ?b = "replace_runs is_space ''-'' ?a"
  let ?c = "replace_runs (\<lambda>c. c = CHR ''-'') ''-'' ?b"
  assume "c \<in> set (slugify str)"
  then have "c \<in> set ?c" using strip_edge_hyphens_set by (auto simp: slugify_def)
  then have "c \<in> set ?b \<or> c = CHR ''-''"
    using replace_runs_set[of "\<lambda>c. c = CHR ''-''" "''-''" ?b] by auto
  then show "slug_char c"
  proof
    assume b: "c \<in> set ?b"
    then have ns: "\<not> is_space c"
      using replace_runs_none[of "''-''" is_space c ?a] hyphen_not_space by simp
    from b have "c \<in> set ?a \<or> c = CHR ''-''"
      using replace_runs_set[of is_space "''-''" ?a] by auto
    then have "(is_word c \<or> is_space c \<or> c = CHR ''-'') \<and> \<not> is_upper c"
      by (auto simp: toLowerCase_def lower_char_not_upper hyphen_not_upper)
    with ns show ?thesis by (simp add: slug_char_def)
  next
    assume "c = CHR ''-''"
    then show ?thesis by (simp add: slug_char_def hyphen_not_upper)
  qed
qed

lemma slugify_no_adj: "no_adj (CHR ''-'') (slugify str)"
  unfolding slugify_def by (intro strip_edge_hyphens_no_adj) (simp add: replace_runs_no_adj)

lemma slugify_hd_last: "slugify str \<noteq> [] \<Longrightarrow> hd (slugify str) \<noteq> CHR ''-'' \<and> last (slugify str) \<noteq> CHR ''-''"
  unfolding slugify_def by (intro strip_edge_hyphens_hd_last) (simp_all add: replace_runs_no_adj)

lemma slug_char_not_space: "slug_char c \<Longrightarrow> \<not> is_space c"
  by (auto simp: slug_char_def is_word_def is_space_def code_def)

lemma slugify_fix:
  assumes ch: "\<forall>c\<in>set s. slug_char c" and na: "no_adj (CHR ''-'') s"
    and ends: "s \<noteq> [] \<Longrightarrow> hd s \<noteq> CHR ''-'' \<and> last s \<noteq> CHR ''-''"
  shows "slugify s = s"
proof -
  have 1: "toLowerCase s = s" using ch by (intro toLowerCase_fix) (simp add: slug_char_def)
  have 2: "filter (\<lambda>c. is_word c \<or> is_space c \<or> c = CHR ''-'') s = s"
    using ch by (intro filter_True) (auto simp: slug_char_def)
  have 3: "replace_runs is_space ''-'' s = s"
    using ch by (intro replace_runs_id) (simp add: slug_char_not_space)
  have 4: "replace_runs (\<lambda>c. c = CHR ''-'') ''-'' s = s"
    using na by (rule no_adj_replace_id)
  have 5: "strip_edge_hyphens s = s" using ends by (rule strip_edge_hyphens_fix)
  show ?thesis by (simp add: slugify_def 1 2 3 4 5)
qed

lemma replace_runs_squeeze: "replace_runs p [h] s = squeeze p h s"
proof (induction p h s rule: squeeze.induct)
  case (1 p h)
  show ?case by simp
next
  case (2 p h c)
  show ?case by simp
next
  case (3 p h c d cs)
  show ?case
  proof (cases "p c")
    case False
    with 3 show ?thesis by simp
  next
    case pc: True
    show ?thesis
    proof (cases "p d")
      case True
      with pc 3(1) show ?thesis by simp
    next
      case False
      with pc 3(2) show ?thesis by simp
    qed
  qed
qed

lemma slugify_eq_steps: "slugify x = slugify_steps x"
proof -
  let ?b = "replace_runs is_space ''-'' (filter (\<lambda>c. is_word c \<or> is_space c \<or> c = CHR ''-'') (toLowerCase x))"
  have "strip_edge_hyphens (replace_runs (\<lambda>c. c = CHR ''-'') ''-'' ?b)
        = trim_hyphens (replace_runs (\<lambda>c. c = CHR ''-'') ''-'' ?b)"
    by (rule strip_edge_hyphens_trim) (rule replace_runs_no_adj)
  then show ?thesis
    by (simp add: slugify_def slugify_steps_def strip_non_word_def replace_runs_squeeze)
qed

text \<open>Claim C5. For every string \<open>x\<close>, slugifying a slug changes nothing:
  \<open>slugify (slugify x) = slugify x\<close>. A slug consists of the characters \<open>a-z\<close>, \<open>0-9\<close>,
  underscore and hyphen only, has no two hyphens in a row and no hyphen at either end, and each
  of the five steps leaves such a string as it is.\<close>

theorem slugify_idempotent: "slugify (slugify x) = slugify x"
  by (rule slugify_fix) (simp_all add: slugify_chars slugify_no_adj slugify_hd_last)

theorem slugify_idempotent_witness:
  "slugify (slugify ''  Gray's --  Anatomy, 2nd Ed. '') = slugify ''  Gray's --  Anatomy, 2nd Ed. ''"
  using slugify_idempotent [of "''  Gray's --  Anatomy, 2nd Ed. ''"] by simp

text \<open>Claim C6, as stated: the slug is computed by lower-casing, stripping the non-word
  characters, collapsing the runs of white space to single hyphens and trimming the hyphens at
  both ends. This fails where the input has hyphens of its own: the source also collapses the
  runs of hyphens, so \<open>a--b\<close> becomes \<open>a-b\<close>, while the four described steps leave \<open>a--b\<close>.
  (Read with the hyphen as one of the stripped non-word characters, the description gives
  \<open>ab\<close>, which is not the slug of the source either.)\<close>

theorem slugify_described_counterexample:
  "slugify ''a--b'' = ''a-b'' \<and> slugify_described ''a--b'' = ''a--b''
   \<and> slugify ''a--b'' \<noteq> slugify_described ''a--b''"
  by code_simp

text \<open>Claim C6, amended: for every collection name the slug is computed by lower-casing,
  stripping the characters that are neither word characters nor white space nor hyphens,
  collapsing the runs of white space to single hyphens, collapsing the runs of hyphens to single
  hyphens, and trimming the hyphens at both ends; in particular the slug of
  \<open>Gray's Anatomy\<close> is \<open>grays-anatomy\<close>.\<close>

theorem slugify_steps_example:
  "slugify x = slugify_steps x \<and> slugify ''Gray's Anatomy'' = ''grays-anatomy''"
proof
  show "slugify x = slugify_steps x" by (rule slugify_eq_steps)
  show "slugify ''Gray's Anatomy'' = ''grays-anatomy''" by code_simp
qed

theorem slugify_steps_example_witness:
  "slugify '' - a - B__ --'' = slugify_steps '' - a - B__ --''
   \<and> slugify_steps '' - a - B__ --'' = ''a-b__''"
proof -
  have "slugify_steps '' - a - B__ --'' = ''a-b__''" by code_simp
  then show ?thesis using slugify_steps_example [of "'' - a - B__ --''"] by simp
qed

subsection \<open>The citation key\<close>

lemma split_ws_first: "(case split_ws s of [] \<Rightarrow> s | w # _ \<Rightarrow> w) = first_token s"
  by (subst split_ws.simps) (simp add: Let_def first_token_def)

text \<open>Claim C3, as stated: the key is the slug of the first token of the collection name, a
  hyphen, and the slug of the title cut to 60 characters, the cut happening before the
  slugification. The source slugifies the whole title and cuts the slug. For a title of 59
  letters \<open>a\<close>, a space and a \<open>b\<close> the source keeps the hyphen that stands for the space as the
  60th character of the slug; cutting the title first leaves the space at its end, which the
  slug drops.\<close>

theorem buildCitationKey_described_counterexample:
  "buildCitationKey ''x'' ''aaaaaaaaaaaaaaaaaaaaaaaaaaaaaaaaaaaaaaaaaaaaaaaaaaaaaaaaaaa b''
     = ''x-aaaaaaaaaaaaaaaaaaaaaaaaaaaaaaaaaaaaaaaaaaaaaaaaaaaaaaaaaaa-''
   \<and> citation_key_described ''x'' ''aaaaaaaaaaaaaaaaaaaaaaaaaaaaaaaaaaaaaaaaaaaaaaaaaaaaaaaaaaa b''
     = ''x-aaaaaaaaaaaaaaaaaaaaaaaaaaaaaaaaaaaaaaaaaaaaaaaaaaaaaaaaaaa''
   \<and> buildCitationKey ''x'' ''aaaaaaaaaaaaaaaaaaaaaaaaaaaaaaaaaaaaaaaaaaaaaaaaaaaaaaaaaaa b''
     \<noteq> citation_key_described ''x'' ''aaaaaaaaaaaaaaaaaaaaaaaaaaaaaaaaaaaaaaaaaaaaaaaaaaaaaaaaaaa b''"
  by code_simp

text \<open>Claim C3, amended: for every collection name and title the key is the slug of the first
  white-space-delimited token of the collection name (what stands before its first white-space
  character), a hyphen, and the first 60 characters of the slug of the whole title: the cut to
  60 characters happens after the slugification. The key is a function of the two strings
  alone.\<close>

theorem buildCitationKey_slug_then_cut:
  "buildCitationKey collectionName title
     = slugify (first_token collectionName) @ ''-'' @ take 60 (slugify title)
   \<and> length (take 60 (slugify title)) \<le> 60"
  by (simp add: buildCitationKey_def Let_def split_ws_first)

theorem buildCitationKey_slug_then_cut_witness:
  "buildCitationKey ''Gray's Anatomy'' ''Ch. 1'' = ''grays-ch-1''"
proof -
  have "slugify (first_token ''Gray's Anatomy'') = ''grays''" by code_simp
  moreover have "take 60 (slugify ''Ch. 1'') = ''ch-1''" by code_simp
  ultimately show ?thesis
    using buildCitationKey_slug_then_cut [of "''Gray's Anatomy''" "''Ch. 1''"] by simp
qed

subsection \<open>CSV escaping\<close>

lemma double_quotes_Cons:
  "double_quotes (c # cs) =
     (if c = dquote then dquote # dquote # double_quotes cs else c # double_quotes cs)"
  by (simp add: double_quotes_def)

lemma double_quotes_Nil: "double_quotes [] = []"
  by (simp add: double_quotes_def)

lemma undouble_plain: "a \<noteq> dquote \<Longrightarrow> undouble (a # t) = a # undouble t"
  by (cases t) simp_all

lemma undouble_double_quotes: "undouble (double_quotes s) = s"
proof (induction s)
  case Nil
  show ?case by (simp add: double_quotes_Nil)
next
  case (Cons c cs)
  show ?case
  proof (cases "c = dquote")
    case True
    with Cons show ?thesis by (simp add: double_quotes_Cons)
  next
    case False
    with Cons show ?thesis by (simp add: double_quotes_Cons undouble_plain)
  qed
qed

lemma strip_quotes_wrapped: "strip_quotes ([dquote] @ t @ [dquote]) = t"
  by (simp add: strip_quotes_def butlast_append)

text \<open>Claim C4. For every string \<open>s\<close> that contains a comma, a double quote or a line feed,
  reading \<open>escapeCSV s\<close> back (one layer of surrounding quotes stripped, each doubled quote
  inside made single) gives \<open>s\<close> again.\<close>

theorem escapeCSV_roundtrip:
  assumes "CHR '','' \<in> set s \<or> dquote \<in> set s \<or> CHR 0x0A \<in> set s"
  shows "csv_read_field (escapeCSV s) = s"
proof -
  from assms have "escapeCSV s = [dquote] @ double_quotes s @ [dquote]"
    by (simp add: escapeCSV_def)
  then show ?thesis
    by (simp only: csv_read_field_def strip_quotes_wrapped undouble_double_quotes)
qed

text \<open>The witness: the field \<open>say "a", b\<close> is escaped to \<open>"say ""a"", b"\<close> and read back.\<close>

theorem escapeCSV_roundtrip_witness:
  "(CHR '','' \<in> set (''say '' @ [dquote] @ ''a'' @ [dquote] @ '', b'')
      \<or> dquote \<in> set (''say '' @ [dquote] @ ''a'' @ [dquote] @ '', b'')
      \<or> CHR 0x0A \<in> set (''say '' @ [dquote] @ ''a'' @ [dquote] @ '', b''))
   \<and> escapeCSV (''say '' @ [dquote] @ ''a'' @ [dquote] @ '', b'')
       = [dquote] @ ''say '' @ [dquote, dquote] @ ''a'' @ [dquote, dquote] @ '', b'' @ [dquote]
   \<and> csv_read_field (escapeCSV (''say '' @ [dquote] @ ''a'' @ [dquote] @ '', b''))
       = ''say '' @ [dquote] @ ''a'' @ [dquote] @ '', b''"
proof -
  have h: "CHR '','' \<in> set (''say '' @ [dquote] @ ''a'' @ [dquote] @ '', b'')
      \<or> dquote \<in> set (''say '' @ [dquote] @ ''a'' @ [dquote] @ '', b'')
      \<or> CHR 0x0A \<in> set (''say '' @ [dquote] @ ''a'' @ [dquote] @ '', b'')"
    by simp
  have e: "escapeCSV (''say '' @ [dquote] @ ''a'' @ [dquote] @ '', b'')
       = [dquote] @ ''say '' @ [dquote, dquote] @ ''a'' @ [dquote, dquote] @ '', b'' @ [dquote]"
    by (simp add: escapeCSV_def double_quotes_def dquote_def)
  show ?thesis using h e escapeCSV_roundtrip [OF h] by simp
qed

subsection \<open>The entries of the modal\<close>

lemma addFiles_skip: "\<not> is_pdf f \<Longrightarrow> addFiles P es (f # fs) = addFiles P es fs"
  by (simp add: is_pdf_def)

lemma addFiles_filter: "addFiles P es fs = addFiles P es (filter is_pdf fs)"
  by (induction fs arbitrary: es) (simp_all add: is_pdf_def)

lemma addFiles_no_pdf: "\<forall>f\<in>set fs. \<not> is_pdf f \<Longrightarrow> addFiles P es fs = es"
  by (induction fs arbitrary: es) (simp_all add: is_pdf_def)

lemma addFiles_appends:
  "\<exists>new. addFiles P es fs = es @ new
     \<and> (\<forall>e\<in>set new. entry_file e \<in> set fs \<and> is_pdf (entry_file e))"
proof (induction fs arbitrary: es)
  case Nil
  show ?case by simp
next
  case (Cons f fs)
  let ?e = "\<lparr>entry_file = f, entry_title = titleFromFilename P (file_name f),
             entry_sourceType = guessSourceType (file_name f)\<rparr>"
  show ?case
  proof (cases "is_pdf f \<and> \<not> list_ex (\<lambda>e. file_name (entry_file e) = file_name f
                          \<and> file_size (entry_file e) = file_size f) es")
    case False
    then have "addFiles P es (f # fs) = addFiles P es fs" by (auto simp: is_pdf_def)
    moreover from Cons[of es] obtain new where "addFiles P es fs = es @ new"
      and "\<forall>e\<in>set new. entry_file e \<in> set fs \<and> is_pdf (entry_file e)" by blast
    ultimately show ?thesis by auto
  next
    case True
    then have "addFiles P es (f # fs) = addFiles P (es @ [?e]) fs" by (simp add: is_pdf_def)
    moreover from Cons[of "es @ [?e]"] obtain new where "addFiles P (es @ [?e]) fs = (es @ [?e]) @ new"
      and "\<forall>e\<in>set new. entry_file e \<in> set fs \<and> is_pdf (entry_file e)" by blast
    ultimately have "addFiles P es (f # fs) = es @ (?e # new)
       \<and> (\<forall>e\<in>set (?e # new). entry_file e \<in> set (f # fs) \<and> is_pdf (entry_file e))"
      using True by auto
    then show ?thesis by blast
  qed
qed

lemma list_ex_key:
  "list_ex (\<lambda>e. file_name (entry_file e) = file_name f \<and> file_size (entry_file e) = file_size f) es
     = ((file_name f, file_size f) \<in> set (map file_key es))"
  by (force simp: list_ex_iff file_key_def)

lemma addFiles_unique: "unique_files es \<Longrightarrow> unique_files (addFiles P es fs)"
proof (induction fs arbitrary: es)
  case Nil
  then show ?case by simp
next
  case (Cons f fs)
  show ?case
  proof (cases "is_pdf f \<and> (file_name f, file_size f) \<notin> set (map file_key es)")
    case False
    then have "addFiles P es (f # fs) = addFiles P es fs"
      by (auto simp: is_pdf_def list_ex_key simp del: set_map)
    with Cons show ?thesis by simp
  next
    case True
    let ?e = "\<lparr>entry_file = f, entry_title = titleFromFilename P (file_name f),
               entry_sourceType = guessSourceType (file_name f)\<rparr>"
    from True have eq: "addFiles P es (f # fs) = addFiles P (es @ [?e]) fs"
      by (simp add: is_pdf_def list_ex_key del: set_map)
    have "file_key ?e = (file_name f, file_size f)" by (simp add: file_key_def)
    with True Cons.prems have "unique_files (es @ [?e])" by (simp add: unique_files_def)
    then show ?thesis unfolding eq by (rule Cons.IH)
  qed
qed

lemma distinct_remove_nth: "distinct xs \<Longrightarrow> distinct (take i xs @ drop (Suc i) xs)"
proof (cases "i < length xs")
  case True
  assume d: "distinct xs"
  have "xs = take i xs @ xs ! i # drop (Suc i) xs" using True by (rule id_take_nth_drop)
  with d have "distinct (take i xs @ xs ! i # drop (Suc i) xs)" by simp
  then show ?thesis by simp
next
  case False
  assume "distinct xs"
  with False show ?thesis by simp
qed

lemma removeEntry_unique: "unique_files es \<Longrightarrow> unique_files (removeEntry i es)"
  unfolding unique_files_def removeEntry_def
  using distinct_remove_nth[of "map file_key es" i] by (simp add: take_map drop_map)

lemma setTitle_keys: "map file_key (setTitle i t es) = map file_key es"
  by (simp add: setTitle_def map_update file_key_def list_update_same_conv)

lemma setSourceType_keys: "map file_key (setSourceType i ty es) = map file_key es"
  by (simp add: setSourceType_def map_update file_key_def list_update_same_conv)

lemma apply_entries_op_unique: "unique_files es \<Longrightarrow> unique_files (apply_entries_op P es op)"
  by (cases op) (simp_all add: addFiles_unique removeEntry_unique,
                 simp_all add: unique_files_def setTitle_keys setSourceType_keys)

lemma foldl_ops_unique: "unique_files es \<Longrightarrow> unique_files (foldl (apply_entries_op P) es ops)"
  by (induction ops arbitrary: es) (simp_all add: apply_entries_op_unique)

lemma run_entries_ops_unique: "unique_files (run_entries_ops P ops)"
  unfolding run_entries_ops_def by (rule foldl_ops_unique) (simp add: unique_files_def)

lemma filter_key_none: "k \<notin> set (map g xs) \<Longrightarrow> filter (\<lambda>e. g e = k) xs = []"
  by (induction xs) auto

lemma filter_key_one:
  "distinct (map g xs) \<Longrightarrow> k \<in> set (map g xs) \<Longrightarrow> length (filter (\<lambda>e. g e = k) xs) = 1"
proof (induction xs)
  case Nil
  then show ?case by simp
next
  case (Cons x xs)
  show ?case
  proof (cases "g x = k")
    case True
    with Cons.prems have "k \<notin> set (map g xs)" by auto
    then have "filter (\<lambda>e. g e = k) xs = []" by (rule filter_key_none)
    with True show ?thesis by simp
  next
    case False
    with Cons show ?thesis by auto
  qed
qed

lemma addFiles_twice:
  assumes u: "unique_files es" and pdf: "is_pdf f"
    and same: "file_name f' = file_name f" "file_size f' = file_size f"
  shows "length (filter (\<lambda>e. file_key e = (file_name f, file_size f)) (addFiles P es [f, f'])) = 1"
proof -
  let ?k = "(file_name f, file_size f)"
  let ?e = "\<lparr>entry_file = f, entry_title = titleFromFilename P (file_name f),
             entry_sourceType = guessSourceType (file_name f)\<rparr>"
  have pdf': "is_pdf f'" using pdf same by (simp add: is_pdf_def)
  have ke: "file_key ?e = ?k" by (simp add: file_key_def)
  note one = filter_key_one[where g = file_key and k = ?k]
  show ?thesis
  proof (cases "?k \<in> set (map file_key es)")
    case True
    then have "addFiles P es [f, f'] = es"
      using pdf pdf' same by (simp add: is_pdf_def list_ex_key del: set_map)
    with one[of es] u True show ?thesis by (simp add: unique_files_def del: set_map)
  next
    case False
    then have "addFiles P es [f, f'] = es @ [?e]"
      using pdf pdf' same ke by (simp add: is_pdf_def list_ex_key file_key_def)
    moreover have "distinct (map file_key (es @ [?e]))" using u False ke by (simp add: unique_files_def)
    moreover have "?k \<in> set (map file_key (es @ [?e]))" using ke by simp
    ultimately show ?thesis using one[of "es @ [?e]"] by simp
  qed
qed

text \<open>Claim C10. For every list of files, \<^verbatim>\<open>addFiles\<close> appends entries only, each for a
  file of the list whose lower-cased name ends with \<open>.pdf\<close>; the other files are ignored: the
  result is the same as for the list without them, and a list with no such file leaves the
  entries unchanged.\<close>

theorem addFiles_only_pdf:
  "(\<exists>new. addFiles P es fs = es @ new
      \<and> (\<forall>e\<in>set new. entry_file e \<in> set fs \<and> is_pdf (entry_file e)))
   \<and> addFiles P es fs = addFiles P es (filter is_pdf fs)
   \<and> ((\<forall>f\<in>set fs. \<not> is_pdf f) \<longrightarrow> addFiles P es fs = es)"
  using addFiles_appends addFiles_filter addFiles_no_pdf by blast

theorem addFiles_only_pdf_witness:
  "\<not> is_pdf \<lparr>file_name = ''notes.txt'', file_size = 10, file_bytes = ''abc''\<rparr>
   \<and> \<not> is_pdf \<lparr>file_name = ''scan.PDF.bak'', file_size = 7, file_bytes = ''xyz''\<rparr>
   \<and> addFiles example_path []
        [\<lparr>file_name = ''notes.txt'', file_size = 10, file_bytes = ''abc''\<rparr>,
         \<lparr>file_name = ''scan.PDF.bak'', file_size = 7, file_bytes = ''xyz''\<rparr>] = []"
proof -
  have h1: "\<not> is_pdf \<lparr>file_name = ''notes.txt'', file_size = 10, file_bytes = ''abc''\<rparr>"
    by code_simp
  have h2: "\<not> is_pdf \<lparr>file_name = ''scan.PDF.bak'', file_size = 7, file_bytes = ''xyz''\<rparr>"
    by code_simp
  show ?thesis
    using h1 h2 addFiles_only_pdf [of example_path "[]"
        "[\<lparr>file_name = ''notes.txt'', file_size = 10, file_bytes = ''abc''\<rparr>,
          \<lparr>file_name = ''scan.PDF.bak'', file_size = 7, file_bytes = ''xyz''\<rparr>]"]
    by simp
qed

text \<open>Claim C8, as stated: adding two files with identical name and byte size yields exactly
  one entry. \<^verbatim>\<open>addFiles\<close> first drops every file whose name does not end with \<open>.pdf\<close>, so
  two such files yield no entry at all.\<close>

theorem addFiles_twice_counterexample:
  "addFiles example_path []
     [\<lparr>file_name = ''notes.txt'', file_size = 10, file_bytes = ''abc''\<rparr>,
      \<lparr>file_name = ''notes.txt'', file_size = 10, file_bytes = ''abc''\<rparr>] = []"
  by code_simp

text \<open>Claim C8, amended: the entries never contain two entries whose files have the same
  (name, byte size) pair. \<^verbatim>\<open>addFiles\<close> skips an incoming file that matches an entry on both,
  so adding two files with identical name and byte size whose name ends with \<open>.pdf\<close> yields
  exactly one entry with that pair; every run of additions, removals and edits of a card from
  the initial empty list has the invariant, and \<^verbatim>\<open>addFiles\<close> and removal each preserve it.\<close>

theorem entries_unique:
  "unique_files (run_entries_ops P ops)
   \<and> (unique_files es \<longrightarrow> unique_files (addFiles P es fs) \<and> unique_files (removeEntry i es))
   \<and> ((file_name f, file_size f) \<in> set (map file_key es)
        \<longrightarrow> addFiles P es (f # fs) = addFiles P es fs)
   \<and> (unique_files es \<and> is_pdf f \<and> file_name f' = file_name f \<and> file_size f' = file_size f
        \<longrightarrow> length (filter (\<lambda>e. file_key e = (file_name f, file_size f))
                      (addFiles P es [f, f'])) = 1)"
proof (intro conjI impI)
  show "unique_files (run_entries_ops P ops)" by (rule run_entries_ops_unique)
next
  assume "unique_files es"
  then show "unique_files (addFiles P es fs)" by (rule addFiles_unique)
next
  assume "unique_files es"
  then show "unique_files (removeEntry i es)" by (rule removeEntry_unique)
next
  assume "(file_name f, file_size f) \<in> set (map file_key es)"
  then show "addFiles P es (f # fs) = addFiles P es fs"
    by (simp add: list_ex_key del: set_map)
next
  assume "unique_files es \<and> is_pdf f \<and> file_name f' = file_name f \<and> file_size f' = file_size f"
  then show "length (filter (\<lambda>e. file_key e = (file_name f, file_size f))
                      (addFiles P es [f, f'])) = 1"
    using addFiles_twice by blast
qed

theorem entries_unique_witness:
  "unique_files []
   \<and> is_pdf \<lparr>file_name = ''Ch. 1.PDF'', file_size = 10, file_bytes = ''abc''\<rparr>
   \<and> length (filter (\<lambda>e. file_key e = (''Ch. 1.PDF'', 10))
        (addFiles example_path []
           [\<lparr>file_name = ''Ch. 1.PDF'', file_size = 10, file_bytes = ''abc''\<rparr>,
            \<lparr>file_name = ''Ch. 1.PDF'', file_size = 10, file_bytes = ''xyz''\<rparr>])) = 1
   \<and> unique_files (run_entries_ops example_path
        [AddFiles [\<lparr>file_name = ''Ch. 1.PDF'', file_size = 10, file_bytes = ''abc''\<rparr>],
         Remove 0,
         AddFiles [\<lparr>file_name = ''Ch. 1.PDF'', file_size = 10, file_bytes = ''abc''\<rparr>]])"
proof -
  have u: "unique_files []" by (simp add: unique_files_def)
  have p: "is_pdf \<lparr>file_name = ''Ch. 1.PDF'', file_size = 10, file_bytes = ''abc''\<rparr>"
    by code_simp
  show ?thesis
    using u p
      entries_unique [where P = example_path
        and ops = "[AddFiles [\<lparr>file_name = ''Ch. 1.PDF'', file_size = 10, file_bytes = ''abc''\<rparr>],
          Remove 0,
          AddFiles [\<lparr>file_name = ''Ch. 1.PDF'', file_size = 10, file_bytes = ''abc''\<rparr>]]"
        and es = "[]"
        and f = "\<lparr>file_name = ''Ch. 1.PDF'', file_size = 10, file_bytes = ''abc''\<rparr>"
        and f' = "\<lparr>file_name = ''Ch. 1.PDF'', file_size = 10, file_bytes = ''xyz''\<rparr>"]
    by simp
qed

subsection \<open>Validation before \<^verbatim>\<open>submit\<close>\<close>

lemma validate_Some:
  assumes "entries w = [] \<or> trim (collectionInput w) = [] \<or> trim (yearInput w) = []
           \<or> (\<exists>e\<in>set (entries w). trim (entry_title e) = [])"
  shows "\<exists>msg. validate w = Some msg
           \<and> (msg = ''Add at least one PDF.'' \<or> msg = ''Enter a collection name.''
               \<or> msg = ''Enter a year or edition.''
               \<or> (\<exists>e\<in>set (entries w). trim (entry_title e) = []
                     \<and> msg = ''A file is missing a title ('' @ file_name (entry_file e) @ '').''))"
proof (cases "entries w = [] \<or> trim (collectionInput w) = [] \<or> trim (yearInput w) = []")
  case True
  then show ?thesis by (auto simp: validate_def)
next
  case False
  with assms have "\<exists>e\<in>set (entries w). trim (entry_title e) = []" by blast
  then obtain e where f: "find (\<lambda>e. trim (entry_title e) = []) (entries w) = Some e"
    by (cases "find (\<lambda>e. trim (entry_title e) = []) (entries w)") (auto simp: find_None_iff)
  then have "e \<in> set (entries w) \<and> trim (entry_title e) = []"
    by (auto simp: find_Some_iff)
  with False f show ?thesis by (auto simp: validate_def)
qed

text \<open>Claim C2. If the entries are empty, or the trimmed collection name is empty, or the
  trimmed year is empty, or the trimmed title of some entry is empty, then \<^verbatim>\<open>submit\<close> shows
  one of the four validation messages and does nothing else: the state afterwards is the state
  before with that notice added, so no directory was created, no file was copied, no manifest
  was written, the saved collections are as before and nothing was saved or started.\<close>

theorem submit_validation_gate:
  assumes "entries w = [] \<or> trim (collectionInput w) = [] \<or> trim (yearInput w) = []
           \<or> (\<exists>e\<in>set (entries w). trim (entry_title e) = [])"
  shows "\<exists>msg. validate w = Some msg
           \<and> (msg = ''Add at least one PDF.'' \<or> msg = ''Enter a collection name.''
               \<or> msg = ''Enter a year or edition.''
               \<or> (\<exists>e\<in>set (entries w). trim (entry_title e) = []
                     \<and> msg = ''A file is missing a title ('' @ file_name (entry_file e) @ '').''))
           \<and> submit E dryRun w = w\<lparr>notices := notices w @ [msg]\<rparr>
           \<and> fs_log (submit E dryRun w) = fs_log w
           \<and> settings (submit E dryRun w) = settings w
           \<and> saved_data (submit E dryRun w) = saved_data w
           \<and> ingest_calls (submit E dryRun w) = ingest_calls w"
proof -
  from validate_Some[OF assms] obtain msg where v: "validate w = Some msg"
    and m: "msg = ''Add at least one PDF.'' \<or> msg = ''Enter a collection name.''
               \<or> msg = ''Enter a year or edition.''
               \<or> (\<exists>e\<in>set (entries w). trim (entry_title e) = []
                     \<and> msg = ''A file is missing a title ('' @ file_name (entry_file e) @ '').'')"
    by blast
  from v have s: "submit E dryRun w = w\<lparr>notices := notices w @ [msg]\<rparr>"
    by (simp add: submit_def)
  show ?thesis using v m s by auto
qed

text \<open>The witness: a modal whose only entry has a title of three spaces.\<close>

theorem submit_validation_gate_witness:
  "trim (entry_title (hd (entries (example_world ''   '' [])))) = []
   \<and> validate (example_world ''   '' []) = Some ''A file is missing a title (Ch. 1.pdf).''
   \<and> submit example_env False (example_world ''   '' [])
       = (example_world ''   '' [])\<lparr>notices := [''A file is missing a title (Ch. 1.pdf).'']\<rparr>
   \<and> fs_log (submit example_env False (example_world ''   '' [])) = []
   \<and> savedCollections (settings (submit example_env False (example_world ''   '' []))) = []"
proof -
  let ?W = "example_world ''   '' []"
  have t: "trim (entry_title (hd (entries ?W))) = []" by code_simp
  have e: "hd (entries ?W) \<in> set (entries ?W)" by (simp add: example_world_def)
  have h: "entries ?W = [] \<or> trim (collectionInput ?W) = [] \<or> trim (yearInput ?W) = []
           \<or> (\<exists>e\<in>set (entries ?W). trim (entry_title e) = [])"
    using t e by blast
  have v: "validate ?W = Some ''A file is missing a title (Ch. 1.pdf).''" by code_simp
  have n: "notices ?W = []" "fs_log ?W = []" "savedCollections (settings ?W) = []"
    by (simp_all add: example_world_def)
  from submit_validation_gate [OF h, of example_env False] v n t
  show ?thesis by auto
qed

subsection \<open>The saved collections after \<^verbatim>\<open>submit\<close>\<close>

lemma fs_do_frame: "fs_do E op w = (r, w') \<Longrightarrow> w' = w\<lparr>fs_log := fs_log w'\<rparr>"
  by (auto simp: fs_do_def split: option.splits)

lemma copy_entries_frame:
  "copy_entries E d es dp w = (r, w') \<Longrightarrow> w' = w\<lparr>fs_log := fs_log w'\<rparr>"
proof (induction es arbitrary: dp w)
  case Nil
  then show ?case by auto
next
  case (Cons e es)
  let ?dest = "path_join (path_mod E) [d, file_name (entry_file e)]"
  obtain r1 w1 where f: "fs_do E (WriteFile ?dest (file_bytes (entry_file e))) w = (r1, w1)"
    by (cases "fs_do E (WriteFile ?dest (file_bytes (entry_file e))) w")
  from fs_do_frame[OF f] have w1: "w1 = w\<lparr>fs_log := fs_log w1\<rparr>" .
  show ?case
  proof (cases "read_error E (entry_file e)")
    case (Some err)
    with Cons.prems have "w' = w" by (simp add: Let_def)
    then show ?thesis by simp
  next
    case rd: None
    show ?thesis
    proof (cases r1)
      case (Some err)
      with Cons.prems f rd have "w' = w1" by (simp add: Let_def)
      with w1 show ?thesis by simp
    next
      case None
      with Cons.prems f rd have "copy_entries E d es (dp @ [?dest]) w1 = (r, w')"
        by (simp add: Let_def)
      from Cons.IH[OF this] have "w' = w1\<lparr>fs_log := fs_log w'\<rparr>" .
      with w1 show ?thesis by (metis world.surjective world.update_convs(6))
    qed
  qed
qed

lemma fs_do_same:
  "fs_do E op w = (r, w') \<Longrightarrow> settings w' = settings w \<and> entries w' = entries w"
  by (auto simp: fs_do_def split: option.splits)

lemma copy_entries_same:
  "copy_entries E d es dp w = (r, w') \<Longrightarrow> settings w' = settings w \<and> entries w' = entries w"
  using copy_entries_frame[of E d es dp w r w']
  by (metis world.select_convs(1) world.select_convs(5) world.surjective world.update_convs(6))

lemma prepare_success:
  assumes "prepare E w = (Inr mp, w')"
  shows "settings w' =
           (settings w)\<lparr>savedCollections := upsert (saved_record w) (savedCollections (settings w))\<rparr>"
  using assms
  by (auto simp: prepare_def Let_def saved_record_def
           split: prod.splits option.splits sum.splits
           dest!: fs_do_same copy_entries_same)


lemma findIndex_None: "findIndex p xs = None \<Longrightarrow> \<forall>x\<in>set xs. \<not> p x"
  by (induction xs) (auto split: if_splits)

lemma findIndex_Some:
  "findIndex p xs = Some i \<Longrightarrow> i < length xs \<and> p (xs ! i) \<and> (\<forall>j<i. \<not> p (xs ! j))"
proof (induction xs arbitrary: i)
  case Nil
  then show ?case by simp
next
  case (Cons x xs)
  show ?case
  proof (cases "p x")
    case True
    with Cons.prems show ?thesis by simp
  next
    case False
    with Cons.prems obtain k where k: "findIndex p xs = Some k" "i = Suc k" by auto
    from Cons.IH[OF k(1)] have "k < length xs \<and> p (xs ! k) \<and> (\<forall>j<k. \<not> p (xs ! j))" .
    with False k(2) show ?thesis by (auto simp: less_Suc_eq_0_disj)
  qed
qed

lemma upsert_found:
  assumes "\<exists>c\<in>set old. sc_name c = sc_name col"
  shows "\<exists>i<length old. sc_name (old ! i) = sc_name col
            \<and> (\<forall>j<i. sc_name (old ! j) \<noteq> sc_name col) \<and> upsert col old = old[i := col]"
proof (cases "findIndex (\<lambda>c. sc_name c = sc_name col) old")
  case None
  from findIndex_None[OF this] assms show ?thesis by blast
next
  case (Some i)
  from findIndex_Some[OF this] Some show ?thesis by (auto simp: upsert_def)
qed

lemma upsert_missing:
  assumes "\<forall>c\<in>set old. sc_name c \<noteq> sc_name col"
  shows "upsert col old = old @ [col]"
proof (cases "findIndex (\<lambda>c. sc_name c = sc_name col) old")
  case None
  then show ?thesis by (simp add: upsert_def)
next
  case (Some i)
  from findIndex_Some[OF this] assms show ?thesis by (metis nth_mem)
qed

lemma upsert_cases:
  "(\<exists>i<length old. sc_name (old ! i) = sc_name col \<and> upsert col old = old[i := col])
   \<or> ((\<forall>c\<in>set old. sc_name c \<noteq> sc_name col) \<and> upsert col old = old @ [col])"
  using upsert_found[of old col] upsert_missing[of old col] by blast

lemma upsert_mem: "col \<in> set (upsert col old)"
  using upsert_cases[of old col] by (auto simp: set_update_memI)

lemma upsert_length: "length old \<le> length (upsert col old) \<and> length (upsert col old) \<le> Suc (length old)"
  using upsert_cases[of old col] by auto

lemma upsert_frame:
  "i < length old \<Longrightarrow> sc_name (old ! i) \<noteq> sc_name col \<Longrightarrow> upsert col old ! i = old ! i"
  using upsert_cases[of old col] by (auto simp: nth_append nth_list_update)

lemma upsert_names:
  "map sc_name (upsert col old)
     = (if sc_name col \<in> set (map sc_name old) then map sc_name old else map sc_name old @ [sc_name col])"
proof (cases "\<exists>c\<in>set old. sc_name c = sc_name col")
  case True
  from upsert_found[OF True] obtain i where "i < length old" "sc_name (old ! i) = sc_name col"
    "upsert col old = old[i := col]" by blast
  then have "map sc_name (upsert col old) = map sc_name old"
    by (simp add: map_update list_update_same_conv)
  moreover from True have "sc_name col \<in> set (map sc_name old)" by (metis image_eqI set_map)
  ultimately show ?thesis by (simp del: set_map)
next
  case False
  then have "upsert col old = old @ [col]" by (intro upsert_missing) blast
  with False show ?thesis by auto
qed

lemma upsert_distinct: "distinct (map sc_name old) \<Longrightarrow> distinct (map sc_name (upsert col old))"
  by (simp add: upsert_names del: set_map)

lemma upsert_one:
  assumes "distinct (map sc_name old)"
  shows "length (filter (\<lambda>c. sc_name c = sc_name col) (upsert col old)) = 1"
proof (rule filter_key_one)
  show "distinct (map sc_name (upsert col old))" using assms by (rule upsert_distinct)
  show "sc_name col \<in> set (map sc_name (upsert col old))" using upsert_mem[of col old] by force
qed

lemma foldl_upsert_distinct:
  "distinct (map sc_name cs) \<Longrightarrow> distinct (map sc_name (foldl (\<lambda>cs c. upsert c cs) cs cols))"
  by (induction cols arbitrary: cs) (simp_all add: upsert_distinct)

lemma submit_success:
  assumes "submit_succeeds E w mp"
  shows "savedCollections (settings (submit E dryRun w))
           = upsert (saved_record w) (savedCollections (settings w))"
proof -
  from assms have v: "validate w = None" and p: "fst (prepare E w) = Inr mp"
    by (simp_all add: submit_succeeds_def)
  obtain w' where pw: "prepare E w = (Inr mp, w')" using p by (cases "prepare E w") auto
  from prepare_success[OF pw] v pw show ?thesis by (simp add: submit_def)
qed

lemma copy_entries_no_error:
  assumes "\<And>l op. fs_error E l op = None" and "\<And>f. read_error E f = None"
  shows "\<exists>dps w'. copy_entries E d es dp w = (Inr dps, w')"
proof (induction es arbitrary: dp w)
  case Nil
  show ?case by simp
next
  case (Cons e es)
  show ?case using assms Cons[of "dp @ [path_join (path_mod E) [d, file_name (entry_file e)]]"]
    by (simp add: Let_def fs_do_def)
qed

lemma prepare_no_error:
  assumes fs: "\<And>l op. fs_error E l op = None" and rd: "\<And>f. read_error E f = None"
    and sv: "\<And>s. save_error E s = None"
  shows "fst (prepare E w) = Inr (manifestPath_of E w)"
proof -
  let ?destDir = "path_join (path_mod E)
                    [pipelineDir (settings w), ''raw-pdfs'', slugify (trim (collectionInput w))]"
  let ?w1 = "w\<lparr>fs_log := fs_log w @ [Mkdir ?destDir]\<rparr>"
  from copy_entries_no_error[of E ?destDir "entries w" "[]" ?w1] fs rd
  obtain dps w2 where c: "copy_entries E ?destDir (entries w) [] ?w1 = (Inr dps, w2)" by blast
  from copy_entries_same[OF c] have s2: "settings w2 = settings w" by simp
  show ?thesis
    using c s2 by (simp add: prepare_def Let_def fs_do_def fs sv manifestPath_of_def)
qed

text \<open>Claim C9, as stated: after every successful submit with collection name \<open>n\<close> the saved
  collections contain exactly one record named \<open>n\<close>. \<^verbatim>\<open>submit\<close> replaces the first record
  of that name and leaves the others, so saved collections that hold two records of the name
  (the list comes from the stored plugin data) still hold two afterwards.\<close>

theorem submit_upserts_counterexample:
  "submit_succeeds example_env
     (example_world ''Ch. 1''
        [\<lparr>sc_name = ''Gray's Anatomy'', sc_year = ''1858'', sc_authors = ''Gray'',
          sc_defaultSourceType = textbook\<rparr>,
         \<lparr>sc_name = ''Gray's Anatomy'', sc_year = ''1901'', sc_authors = ''Gray'',
          sc_defaultSourceType = paper\<rparr>])
     ''/p/data/manifests/grays-anatomy-2026-01-02T03-04-05.manifest.csv''
   \<and> length (filter (\<lambda>c. sc_name c = ''Gray's Anatomy'')
        (savedCollections (settings (submit example_env False
          (example_world ''Ch. 1''
            [\<lparr>sc_name = ''Gray's Anatomy'', sc_year = ''1858'', sc_authors = ''Gray'',
              sc_defaultSourceType = textbook\<rparr>,
             \<lparr>sc_name = ''Gray's Anatomy'', sc_year = ''1901'', sc_authors = ''Gray'',
              sc_defaultSourceType = paper\<rparr>]))))) = 2"
proof -
  let ?old = "[\<lparr>sc_name = ''Gray's Anatomy'', sc_year = ''1858'', sc_authors = ''Gray'',
          sc_defaultSourceType = textbook\<rparr>,
         \<lparr>sc_name = ''Gray's Anatomy'', sc_year = ''1901'', sc_authors = ''Gray'',
          sc_defaultSourceType = paper\<rparr>]"
  let ?W = "example_world ''Ch. 1'' ?old"
  have v: "validate ?W = None" by code_simp
  have p: "fst (prepare example_env ?W) = Inr (manifestPath_of example_env ?W)"
    by (rule prepare_no_error) (simp_all add: example_env_def)
  have m: "manifestPath_of example_env ?W
             = ''/p/data/manifests/grays-anatomy-2026-01-02T03-04-05.manifest.csv''"
    by code_simp
  have ok: "submit_succeeds example_env ?W
              ''/p/data/manifests/grays-anatomy-2026-01-02T03-04-05.manifest.csv''"
    using v p m by (simp add: submit_succeeds_def)
  have "length (filter (\<lambda>c. sc_name c = ''Gray's Anatomy'')
          (upsert (saved_record ?W) (savedCollections (settings ?W)))) = 2"
    by code_simp
  with submit_success[OF ok, of False] ok show ?thesis by simp
qed

text \<open>Claim C9, amended: after every successful submit with collection name \<open>n\<close> the saved
  collections contain the record of this submit, named \<open>n\<close>: it replaces in place the first
  record of exactly that name if there was one, and is appended otherwise, so the list grows by
  at most one and never shrinks, and every record with a different name is unchanged and keeps
  its position. It is the only record named \<open>n\<close> when the names of the saved collections were
  pairwise distinct before, and then they are so afterwards; every list built by upserts from
  the empty list of the default settings has pairwise distinct names.\<close>

theorem submit_upserts:
  assumes ok: "submit_succeeds E w mp"
  shows "sc_name (saved_record w) = trim (collectionInput w)
   \<and> saved_record w \<in> set (savedCollections (settings (submit E dryRun w)))
   \<and> length (savedCollections (settings w))
        \<le> length (savedCollections (settings (submit E dryRun w)))
   \<and> length (savedCollections (settings (submit E dryRun w)))
        \<le> Suc (length (savedCollections (settings w)))
   \<and> ((\<exists>c\<in>set (savedCollections (settings w)). sc_name c = trim (collectionInput w))
        \<longrightarrow> (\<exists>i<length (savedCollections (settings w)).
               sc_name (savedCollections (settings w) ! i) = trim (collectionInput w)
               \<and> (\<forall>j<i. sc_name (savedCollections (settings w) ! j) \<noteq> trim (collectionInput w))
               \<and> savedCollections (settings (submit E dryRun w))
                   = (savedCollections (settings w))[i := saved_record w]))
   \<and> ((\<forall>c\<in>set (savedCollections (settings w)). sc_name c \<noteq> trim (collectionInput w))
        \<longrightarrow> savedCollections (settings (submit E dryRun w))
              = savedCollections (settings w) @ [saved_record w])
   \<and> (\<forall>i<length (savedCollections (settings w)).
         sc_name (savedCollections (settings w) ! i) \<noteq> trim (collectionInput w)
         \<longrightarrow> savedCollections (settings (submit E dryRun w)) ! i = savedCollections (settings w) ! i)
   \<and> (distinct (map sc_name (savedCollections (settings w)))
        \<longrightarrow> length (filter (\<lambda>c. sc_name c = trim (collectionInput w))
                     (savedCollections (settings (submit E dryRun w)))) = 1
            \<and> distinct (map sc_name (savedCollections (settings (submit E dryRun w)))))
   \<and> distinct (map sc_name (foldl (\<lambda>cs c. upsert c cs) [] cols))"
proof -
  let ?old = "savedCollections (settings w)"
  let ?col = "saved_record w"
  have n: "sc_name ?col = trim (collectionInput w)" by (simp add: saved_record_def)
  have new: "savedCollections (settings (submit E dryRun w)) = upsert ?col ?old"
    using ok by (rule submit_success)
  have 1: "?col \<in> set (upsert ?col ?old)" by (rule upsert_mem)
  have 2: "length ?old \<le> length (upsert ?col ?old) \<and> length (upsert ?col ?old) \<le> Suc (length ?old)"
    by (rule upsert_length)
  have 3: "(\<exists>c\<in>set ?old. sc_name c = sc_name ?col)
        \<longrightarrow> (\<exists>i<length ?old. sc_name (?old ! i) = sc_name ?col
               \<and> (\<forall>j<i. sc_name (?old ! j) \<noteq> sc_name ?col) \<and> upsert ?col ?old = ?old[i := ?col])"
    using upsert_found[of ?old ?col] by blast
  have 4: "(\<forall>c\<in>set ?old. sc_name c \<noteq> sc_name ?col) \<longrightarrow> upsert ?col ?old = ?old @ [?col]"
    using upsert_missing[of ?old ?col] by blast
  have 5: "\<forall>i<length ?old. sc_name (?old ! i) \<noteq> sc_name ?col \<longrightarrow> upsert ?col ?old ! i = ?old ! i"
    using upsert_frame[of _ ?old ?col] by blast
  have 6: "distinct (map sc_name ?old)
        \<longrightarrow> length (filter (\<lambda>c. sc_name c = sc_name ?col) (upsert ?col ?old)) = 1
            \<and> distinct (map sc_name (upsert ?col ?old))"
    using upsert_one[of ?old ?col] upsert_distinct[of ?old ?col] by blast
  have 7: "distinct (map sc_name (foldl (\<lambda>cs c. upsert c cs) [] cols))"
    by (rule foldl_upsert_distinct) simp
  show ?thesis
    unfolding new using n 1 2 3 4 5 6 7 by (simp only:)
qed

text \<open>The witness: a submit for \<open>Gray's Anatomy\<close> over two saved collections with distinct
  names, one of them of that name.\<close>

theorem submit_upserts_witness:
  "submit_succeeds example_env
     (example_world ''Ch. 1''
        [\<lparr>sc_name = ''Cummings'', sc_year = ''2020'', sc_authors = ''Flint'',
          sc_defaultSourceType = paper\<rparr>,
         \<lparr>sc_name = ''Gray's Anatomy'', sc_year = ''1858'', sc_authors = ''Gray'',
          sc_defaultSourceType = paper\<rparr>])
     ''/p/data/manifests/grays-anatomy-2026-01-02T03-04-05.manifest.csv''
   \<and> length (filter (\<lambda>c. sc_name c = ''Gray's Anatomy'')
        (savedCollections (settings (submit example_env False
          (example_world ''Ch. 1''
            [\<lparr>sc_name = ''Cummings'', sc_year = ''2020'', sc_authors = ''Flint'',
              sc_defaultSourceType = paper\<rparr>,
             \<lparr>sc_name = ''Gray's Anatomy'', sc_year = ''1858'', sc_authors = ''Gray'',
              sc_defaultSourceType = paper\<rparr>]))))) = 1"
proof -
  let ?old = "[\<lparr>sc_name = ''Cummings'', sc_year = ''2020'', sc_authors = ''Flint'',
          sc_defaultSourceType = paper\<rparr>,
         \<lparr>sc_name = ''Gray's Anatomy'', sc_year = ''1858'', sc_authors = ''Gray'',
          sc_defaultSourceType = paper\<rparr>]"
  let ?W = "example_world ''Ch. 1'' ?old"
  have v: "validate ?W = None" by code_simp
  have p: "fst (prepare example_env ?W) = Inr (manifestPath_of example_env ?W)"
    by (rule prepare_no_error) (simp_all add: example_env_def)
  have m: "manifestPath_of example_env ?W
             = ''/p/data/manifests/grays-anatomy-2026-01-02T03-04-05.manifest.csv''"
    by code_simp
  have ok: "submit_succeeds example_env ?W
              ''/p/data/manifests/grays-anatomy-2026-01-02T03-04-05.manifest.csv''"
    using v p m by (simp add: submit_succeeds_def)
  have d: "distinct (map sc_name (savedCollections (settings ?W)))"
    by (simp add: example_world_def)
  have n: "trim (collectionInput ?W) = ''Gray's Anatomy''" by code_simp
  from submit_upserts [OF ok, of False "[]"] d n ok show ?thesis by simp
qed

subsection \<open>The run orchestrator\<close>

lemma settle_data:
  "\<forall>ev\<in>set pre. is_data ev \<Longrightarrow>
     settle out err (pre @ rest) = settle (out @ stdout_text pre) (err @ stderr_text pre) rest"
proof (induction pre arbitrary: out err)
  case Nil
  show ?case by simp
next
  case (Cons ev pre)
  then show ?case by (cases ev) simp_all
qed

lemma settle_resolved:
  "settle out err evs = Some (Inr r) \<Longrightarrow>
     \<exists>pre post. evs = pre @ Close (Some 0) # post \<and> (\<forall>ev\<in>set pre. is_data ev)
        \<and> r = out @ stdout_text pre"
proof (induction evs arbitrary: out err)
  case Nil
  then show ?case by simp
next
  case (Cons ev evs)
  show ?case
  proof (cases ev)
    case (StdoutData chunk)
    with Cons.prems have "settle (out @ chunk) err evs = Some (Inr r)" by simp
    from Cons.IH[OF this] obtain pre post where
      "evs = pre @ Close (Some 0) # post" "\<forall>ev\<in>set pre. is_data ev" "r = (out @ chunk) @ stdout_text pre"
      by blast
    with StdoutData have "ev # evs = (ev # pre) @ Close (Some 0) # post
        \<and> (\<forall>x\<in>set (ev # pre). is_data x) \<and> r = out @ stdout_text (ev # pre)" by simp
    then show ?thesis by blast
  next
    case (StderrData chunk)
    with Cons.prems have "settle out (err @ chunk) evs = Some (Inr r)" by simp
    from Cons.IH[OF this] obtain pre post where
      "evs = pre @ Close (Some 0) # post" "\<forall>ev\<in>set pre. is_data ev" "r = out @ stdout_text pre"
      by blast
    with StderrData have "ev # evs = (ev # pre) @ Close (Some 0) # post
        \<and> (\<forall>x\<in>set (ev # pre). is_data x) \<and> r = out @ stdout_text (ev # pre)" by simp
    then show ?thesis by blast
  next
    case (Close c)
    with Cons.prems have "c = Some 0" "r = out" by (auto split: if_splits)
    with Close have "ev # evs = [] @ Close (Some 0) # evs \<and> (\<forall>x\<in>set []. is_data x)
        \<and> r = out @ stdout_text []" by simp
    then show ?thesis by blast
  next
    case (ErrorEvent e)
    with Cons.prems show ?thesis by simp
  qed
qed

lemma runPipelineCmd_alt:
  "runPipelineCmd P st os args =
     (case os (spawn_request_of P st args) of
        SpawnThrows e \<Rightarrow> Some (Inl e) | Spawned evs \<Rightarrow> settle [] [] evs)"
  by (simp add: runPipelineCmd_def spawn_request_of_def Let_def)

text \<open>Claim C1. For every list of arguments, \<^verbatim>\<open>runPipelineCmd\<close> hands the script path and
  the arguments to \<^verbatim>\<open>spawn\<close>, and
  \<^item> when the process closes (after any chunks of output) with code \<open>c\<close>, the promise resolves
    with the captured standard output if \<open>c\<close> is zero, and otherwise rejects with an error whose
    message is the trimmed captured standard error or, when that is empty, \<open>Process exited
    with code c\<close>;
  \<^item> when the process emits \<^verbatim>\<open>error\<close> first, or \<^verbatim>\<open>spawn\<close> throws, the promise rejects with
    that error;
  \<^item> the promise resolves only in the first case with code zero, and then with the captured
    standard output;
  \<^item> as long as the process has neither closed nor failed, the promise is pending.\<close>

theorem runPipelineCmd_contract:
  "(os (spawn_request_of P st args) = Spawned (pre @ Close c # post) \<and> (\<forall>ev\<in>set pre. is_data ev)
      \<longrightarrow> runPipelineCmd P st os args
            = Some (if c = Some 0 then Inr (stdout_text pre)
                    else Inl (Error (if trim (stderr_text pre) \<noteq> [] then trim (stderr_text pre)
                                     else ''Process exited with code '' @ string_of_code c))))
   \<and> (os (spawn_request_of P st args) = Spawned (pre @ ErrorEvent e # post)
        \<and> (\<forall>ev\<in>set pre. is_data ev)
      \<longrightarrow> runPipelineCmd P st os args = Some (Inl e))
   \<and> (os (spawn_request_of P st args) = SpawnThrows e
      \<longrightarrow> runPipelineCmd P st os args = Some (Inl e))
   \<and> (runPipelineCmd P st os args = Some (Inr out)
      \<longrightarrow> (\<exists>pre' post'. os (spawn_request_of P st args) = Spawned (pre' @ Close (Some 0) # post')
             \<and> (\<forall>ev\<in>set pre'. is_data ev) \<and> out = stdout_text pre'))
   \<and> (os (spawn_request_of P st args) = Spawned pre \<and> (\<forall>ev\<in>set pre. is_data ev)
      \<longrightarrow> runPipelineCmd P st os args = None)"
proof (intro conjI impI)
  assume "os (spawn_request_of P st args) = Spawned (pre @ Close c # post) \<and> (\<forall>ev\<in>set pre. is_data ev)"
  then show "runPipelineCmd P st os args
            = Some (if c = Some 0 then Inr (stdout_text pre)
                    else Inl (Error (if trim (stderr_text pre) \<noteq> [] then trim (stderr_text pre)
                                     else ''Process exited with code '' @ string_of_code c)))"
    by (simp add: runPipelineCmd_alt settle_data)
next
  assume "os (spawn_request_of P st args) = Spawned (pre @ ErrorEvent e # post)
        \<and> (\<forall>ev\<in>set pre. is_data ev)"
  then show "runPipelineCmd P st os args = Some (Inl e)"
    by (simp add: runPipelineCmd_alt settle_data)
next
  assume "os (spawn_request_of P st args) = SpawnThrows e"
  then show "runPipelineCmd P st os args = Some (Inl e)"
    by (simp add: runPipelineCmd_alt)
next
  assume r: "runPipelineCmd P st os args = Some (Inr out)"
  show "\<exists>pre' post'. os (spawn_request_of P st args) = Spawned (pre' @ Close (Some 0) # post')
             \<and> (\<forall>ev\<in>set pre'. is_data ev) \<and> out = stdout_text pre'"
  proof (cases "os (spawn_request_of P st args)")
    case (SpawnThrows e')
    with r show ?thesis by (simp add: runPipelineCmd_alt)
  next
    case (Spawned evs)
    with r have "settle [] [] evs = Some (Inr out)" by (simp add: runPipelineCmd_alt)
    from settle_resolved[OF this] Spawned show ?thesis by simp
  qed
next
  assume "os (spawn_request_of P st args) = Spawned pre \<and> (\<forall>ev\<in>set pre. is_data ev)"
  then show "runPipelineCmd P st os args = None"
    using settle_data[of pre "[]" "[]" "[]"] by (simp add: runPipelineCmd_alt)
qed

text \<open>The witness: exit code 2 with blank standard error, the end by a signal with \<open>boom\<close> on
  standard error, and exit code 0.\<close>

theorem runPipelineCmd_contract_witness:
  "runPipelineCmd example_path DEFAULT_SETTINGS
     (\<lambda>req. Spawned [StdoutData ''{\"runs\":'', StderrData ''  '', StdoutData '' []}'', Close (Some 2)])
     [''status'']
     = Some (Inl (Error ''Process exited with code 2''))
   \<and> runPipelineCmd example_path DEFAULT_SETTINGS
     (\<lambda>req. Spawned [StdoutData ''{\"runs\":'', StderrData '' boom '', StdoutData '' []}'', Close None])
     [''status'']
     = Some (Inl (Error ''boom''))
   \<and> runPipelineCmd example_path DEFAULT_SETTINGS
     (\<lambda>req. Spawned [StdoutData ''{\"runs\":'', StderrData '' warn '', StdoutData '' []}'', Close (Some 0)])
     [''status'']
     = Some (Inr ''{\"runs\": []}'')"
proof -
  have t1: "trim ''  '' = []" and t2: "trim '' boom '' = ''boom''"
    and c2: "string_of_code (Some 2) = ''2''"
    by code_simp+
  have 1: "runPipelineCmd example_path DEFAULT_SETTINGS
     (\<lambda>req. Spawned [StdoutData ''{\"runs\":'', StderrData ''  '', StdoutData '' []}'', Close (Some 2)])
     [''status'']
     = Some (Inl (Error ''Process exited with code 2''))"
    using runPipelineCmd_contract [where P = example_path and st = DEFAULT_SETTINGS
        and args = "[''status'']"
        and os = "\<lambda>req. Spawned [StdoutData ''{\"runs\":'', StderrData ''  '', StdoutData '' []}'', Close (Some 2)]"
        and pre = "[StdoutData ''{\"runs\":'', StderrData ''  '', StdoutData '' []}'']"
        and c = "Some 2" and post = "[]"] t1 c2
    by simp
  have 2: "runPipelineCmd example_path DEFAULT_SETTINGS
     (\<lambda>req. Spawned [StdoutData ''{\"runs\":'', StderrData '' boom '', StdoutData '' []}'', Close None])
     [''status'']
     = Some (Inl (Error ''boom''))"
    using runPipelineCmd_contract [where P = example_path and st = DEFAULT_SETTINGS
        and args = "[''status'']"
        and os = "\<lambda>req. Spawned [StdoutData ''{\"runs\":'', StderrData '' boom '', StdoutData '' []}'', Close None]"
        and pre = "[StdoutData ''{\"runs\":'', StderrData '' boom '', StdoutData '' []}'']"
        and c = "None" and post = "[]"] t2
    by simp
  have 3: "runPipelineCmd example_path DEFAULT_SETTINGS
     (\<lambda>req. Spawned [StdoutData ''{\"runs\":'', StderrData '' warn '', StdoutData '' []}'', Close (Some 0)])
     [''status'']
     = Some (Inr ''{\"runs\": []}'')"
    using runPipelineCmd_contract [where P = example_path and st = DEFAULT_SETTINGS
        and args = "[''status'']"
        and os = "\<lambda>req. Spawned [StdoutData ''{\"runs\":'', StderrData '' warn '', StdoutData '' []}'', Close (Some 0)]"
        and pre = "[StdoutData ''{\"runs\":'', StderrData '' warn '', StdoutData '' []}'']"
        and c = "Some 0" and post = "[]"]
    by simp
  from 1 2 3 show ?thesis by blast
qed

subsection \<open>The source-type classifier\<close>

lemma is_word_lower_char: "is_word (lower_char c) = is_word c"
  by (auto simp: lower_char_def is_upper_def is_word_def code_def)

lemma digit_not_sep: "is_digit d \<Longrightarrow> \<not> is_sep d"
  by (auto simp: is_digit_def is_sep_def is_space_def code_def)

lemma ci_prefix_iff:
  "ci_prefix w s = Some r \<longleftrightarrow> (\<exists>m. s = m @ r \<and> toLowerCase m = toLowerCase w)"
proof (induction w s rule: ci_prefix.induct)
  case (1 s)
  show ?case by (auto simp: toLowerCase_def)
next
  case (2 p ps)
  show ?case by (auto simp: toLowerCase_def)
next
  case (3 p ps c cs)
  show ?case
  proof
    assume a: "ci_prefix (p # ps) (c # cs) = Some r"
    then have cc: "ci_char p c" and "ci_prefix ps cs = Some r" by (auto split: if_splits)
    with 3 obtain m where "cs = m @ r" "toLowerCase m = toLowerCase ps" by blast
    with cc have "c # cs = (c # m) @ r \<and> toLowerCase (c # m) = toLowerCase (p # ps)"
      by (simp add: toLowerCase_def ci_char_def)
    then show "\<exists>m. c # cs = m @ r \<and> toLowerCase m = toLowerCase (p # ps)" by blast
  next
    assume "\<exists>m. c # cs = m @ r \<and> toLowerCase m = toLowerCase (p # ps)"
    then obtain m where m: "c # cs = m @ r" "toLowerCase m = toLowerCase (p # ps)" by blast
    from m(2) obtain c' m' where mm: "m = c' # m'" by (cases m) (auto simp: toLowerCase_def)
    with m have "c' = c" "cs = m' @ r" "lower_char c = lower_char p" "toLowerCase m' = toLowerCase ps"
      by (auto simp: toLowerCase_def)
    with 3 show "ci_prefix (p # ps) (c # cs) = Some r" by (auto simp: ci_char_def)
  qed
qed

lemma seps_then_digit_iff:
  "seps_then_digit r \<longleftrightarrow> (\<exists>seps d rest. r = seps @ d # rest \<and> (\<forall>c\<in>set seps. is_sep c) \<and> is_digit d)"
proof
  assume "seps_then_digit r"
  then obtain d rest where dr: "dropWhile is_sep r = d # rest" "is_digit d"
    by (auto simp: seps_then_digit_def split: list.splits)
  have "r = takeWhile is_sep r @ dropWhile is_sep r" by simp
  with dr have "r = takeWhile is_sep r @ d # rest \<and> (\<forall>c\<in>set (takeWhile is_sep r). is_sep c) \<and> is_digit d"
    by (auto dest: set_takeWhileD)
  then show "\<exists>seps d rest. r = seps @ d # rest \<and> (\<forall>c\<in>set seps. is_sep c) \<and> is_digit d" by blast
next
  assume "\<exists>seps d rest. r = seps @ d # rest \<and> (\<forall>c\<in>set seps. is_sep c) \<and> is_digit d"
  then obtain seps d rest where r: "r = seps @ d # rest" "\<forall>c\<in>set seps. is_sep c" "is_digit d" by blast
  then have "dropWhile is_sep r = d # rest"
    by (simp add: dropWhile_append digit_not_sep)
  with r(3) show "seps_then_digit r" by (simp add: seps_then_digit_def)
qed

lemma lower_ch: "toLowerCase ''ch'' = ''ch''" and lower_apter: "toLowerCase ''apter'' = ''apter''"
  and lower_chapter: "toLowerCase ''chapter'' = ''chapter''"
  and lower_section: "toLowerCase ''section'' = ''section''"
  by code_simp+

lemma toLowerCase_append: "toLowerCase (a @ b) = toLowerCase a @ toLowerCase b"
  by (simp add: toLowerCase_def)

lemma lower_chapter_split:
  "toLowerCase k = ''chapter'' \<longleftrightarrow> (\<exists>k1 k2. k = k1 @ k2 \<and> toLowerCase k1 = ''ch'' \<and> toLowerCase k2 = ''apter'')"
proof
  assume a: "toLowerCase k = ''chapter''"
  have "toLowerCase (take 2 k) = take 2 (toLowerCase k)" by (simp add: toLowerCase_def take_map)
  with a have 1: "toLowerCase (take 2 k) = ''ch''" by simp
  have "toLowerCase (drop 2 k) = drop 2 (toLowerCase k)" by (simp add: toLowerCase_def drop_map)
  with a have 2: "toLowerCase (drop 2 k) = ''apter''" by simp
  have "k = take 2 k @ drop 2 k" by simp
  with 1 2 show "\<exists>k1 k2. k = k1 @ k2 \<and> toLowerCase k1 = ''ch'' \<and> toLowerCase k2 = ''apter''"
    by blast
next
  assume "\<exists>k1 k2. k = k1 @ k2 \<and> toLowerCase k1 = ''ch'' \<and> toLowerCase k2 = ''apter''"
  then obtain k1 k2 where "k = k1 @ k2" "toLowerCase k1 = ''ch''" "toLowerCase k2 = ''apter''"
    by blast
  then show "toLowerCase k = ''chapter''" by (simp add: toLowerCase_append)
qed

lemma starts_ch_number_iff: "starts_ch_number s \<longleftrightarrow> starts_with_ch_and_number s"
proof
  assume "starts_ch_number s"
  then obtain r where r: "ci_prefix ''ch'' s = Some r"
    and alt: "(\<exists>r'. ci_prefix ''apter'' r = Some r' \<and> seps_then_digit r') \<or> seps_then_digit r"
    by (auto simp: starts_ch_number_def split: option.splits)
  from r obtain k1 where k1: "s = k1 @ r" "toLowerCase k1 = ''ch''"
    unfolding ci_prefix_iff lower_ch by blast
  from alt show "starts_with_ch_and_number s"
  proof
    assume "\<exists>r'. ci_prefix ''apter'' r = Some r' \<and> seps_then_digit r'"
    then obtain r' k2 where k2: "r = k2 @ r'" "toLowerCase k2 = ''apter''" and sd: "seps_then_digit r'"
      unfolding ci_prefix_iff lower_apter by blast
    from sd obtain seps d rest where "r' = seps @ d # rest" "\<forall>c\<in>set seps. is_sep c" "is_digit d"
      unfolding seps_then_digit_iff by blast
    moreover have "toLowerCase (k1 @ k2) = ''chapter''" using k1 k2 by (simp add: toLowerCase_append)
    ultimately have "s = (k1 @ k2) @ seps @ d # rest
        \<and> (toLowerCase (k1 @ k2) = ''ch'' \<or> toLowerCase (k1 @ k2) = ''chapter'')
        \<and> (\<forall>c\<in>set seps. is_sep c) \<and> is_digit d"
      using k1 k2 by simp
    then show ?thesis unfolding starts_with_ch_and_number_def by blast
  next
    assume "seps_then_digit r"
    then obtain seps d rest where "r = seps @ d # rest" "\<forall>c\<in>set seps. is_sep c" "is_digit d"
      unfolding seps_then_digit_iff by blast
    with k1 have "s = k1 @ seps @ d # rest
        \<and> (toLowerCase k1 = ''ch'' \<or> toLowerCase k1 = ''chapter'')
        \<and> (\<forall>c\<in>set seps. is_sep c) \<and> is_digit d" by simp
    then show ?thesis unfolding starts_with_ch_and_number_def by blast
  qed
next
  assume "starts_with_ch_and_number s"
  then obtain k seps d rest where s: "s = k @ seps @ d # rest"
    and k: "toLowerCase k = ''ch'' \<or> toLowerCase k = ''chapter''"
    and sd: "\<forall>c\<in>set seps. is_sep c" "is_digit d"
    unfolding starts_with_ch_and_number_def by blast
  have tail: "seps_then_digit (seps @ d # rest)" unfolding seps_then_digit_iff using sd by blast
  from k show "starts_ch_number s"
  proof
    assume "toLowerCase k = ''ch''"
    with s have "ci_prefix ''ch'' s = Some (seps @ d # rest)"
      unfolding ci_prefix_iff lower_ch by blast
    with tail show ?thesis by (simp add: starts_ch_number_def)
  next
    assume "toLowerCase k = ''chapter''"
    then obtain k1 k2 where kk: "k = k1 @ k2" "toLowerCase k1 = ''ch''" "toLowerCase k2 = ''apter''"
      unfolding lower_chapter_split by blast
    with s have "ci_prefix ''ch'' s = Some (k2 @ seps @ d # rest)"
      unfolding ci_prefix_iff lower_ch by auto
    moreover from kk have "ci_prefix ''apter'' (k2 @ seps @ d # rest) = Some (seps @ d # rest)"
      unfolding ci_prefix_iff lower_apter by blast
    ultimately show ?thesis using tail by (simp add: starts_ch_number_def)
  qed
qed

lemma toLowerCase_hd_word:
  assumes "toLowerCase m = w" and "w \<noteq> []" and "is_word (hd w)"
  shows "m \<noteq> [] \<and> is_word (hd m)"
proof (cases m)
  case Nil
  with assms show ?thesis by (simp add: toLowerCase_def)
next
  case (Cons c cs)
  with assms have "lower_char c = hd w" by (auto simp: toLowerCase_def)
  with assms(3) have "is_word c" using is_word_lower_char[of c] by simp
  with Cons show ?thesis by simp
qed

lemma toLowerCase_last_word:
  assumes "toLowerCase m = w" and "w \<noteq> []" and "is_word (last w)"
  shows "is_word (last m)"
proof -
  from assms have ne: "m \<noteq> []" by (auto simp: toLowerCase_def)
  then have "last (map lower_char m) = lower_char (last m)" by (rule last_map)
  with assms have "is_word (lower_char (last m))" by (simp add: toLowerCase_def)
  then show ?thesis by (simp add: is_word_lower_char)
qed

lemma ci_prefix_take:
  assumes "ci_prefix w s = Some r"
  shows "s = take (length w) s @ r \<and> toLowerCase (take (length w) s) = toLowerCase w"
proof -
  from assms obtain m where m: "s = m @ r" "toLowerCase m = toLowerCase w"
    unfolding ci_prefix_iff by blast
  from m(2) have "length m = length w" by (metis length_map toLowerCase_def)
  with m have "take (length w) s = m" by simp
  with m show ?thesis by simp
qed

text \<open>What one attempt at a position decides, for a lower-case word that begins and ends with
  a word character.\<close>

lemma match_here:
  assumes w: "w \<noteq> []" "toLowerCase w = w" "is_word (hd w)" "is_word (last w)"
  shows "(word_boundary prev (Some c)
           \<and> (case ci_prefix w (c # cs) of
                None \<Rightarrow> False
              | Some r \<Rightarrow> word_boundary (Some (last (take (length w) (c # cs))))
                           (case r of [] \<Rightarrow> None | d # _ \<Rightarrow> Some d)))
         \<longleftrightarrow> (\<exists>m suf. c # cs = m @ suf \<and> toLowerCase m = w
                \<and> \<not> (case prev of None \<Rightarrow> False | Some p \<Rightarrow> is_word p)
                \<and> (suf = [] \<or> \<not> is_word (hd suf)))"
  (is "?L \<longleftrightarrow> ?R")
proof
  assume L: ?L
  then obtain r where r: "ci_prefix w (c # cs) = Some r"
    and b2: "word_boundary (Some (last (take (length w) (c # cs)))) (case r of [] \<Rightarrow> None | d # _ \<Rightarrow> Some d)"
    and b1: "word_boundary prev (Some c)"
    by (auto split: option.splits)
  define m where "m = take (length w) (c # cs)"
  from ci_prefix_take[OF r] w(2) have m: "c # cs = m @ r" "toLowerCase m = w"
    "take (length w) (c # cs) = m" by (simp_all add: m_def)
  from toLowerCase_hd_word[OF m(2) w(1) w(3)] m(1) have "is_word c" by (cases m) auto
  with b1 have p: "\<not> (case prev of None \<Rightarrow> False | Some p \<Rightarrow> is_word p)"
    by (simp add: word_boundary_def)
  from toLowerCase_last_word[OF m(2) w(1) w(4)] have "is_word (last m)" .
  with b2 m(3) have "r = [] \<or> \<not> is_word (hd r)"
    by (cases r) (simp_all add: word_boundary_def)
  with m p show ?R by blast
next
  assume ?R
  then obtain m suf where m: "c # cs = m @ suf" "toLowerCase m = w"
    and p: "\<not> (case prev of None \<Rightarrow> False | Some p \<Rightarrow> is_word p)"
    and s: "suf = [] \<or> \<not> is_word (hd suf)" by blast
  from m w(2) have r: "ci_prefix w (c # cs) = Some suf" unfolding ci_prefix_iff by auto
  from m(2) w(2) have "length m = length w" by (metis length_map toLowerCase_def)
  with m(1) have tk: "take (length w) (c # cs) = m" by simp
  from toLowerCase_hd_word[OF m(2) w(1) w(3)] m(1) have "is_word c" by (cases m) auto
  with p have b1: "word_boundary prev (Some c)" by (simp add: word_boundary_def)
  from toLowerCase_last_word[OF m(2) w(1) w(4)] have "is_word (last m)" .
  with s have "word_boundary (Some (last m)) (case suf of [] \<Rightarrow> None | d # _ \<Rightarrow> Some d)"
    by (cases suf) (simp_all add: word_boundary_def)
  with b1 r tk show ?L by simp
qed

lemma match_word_from_iff:
  assumes w: "w \<noteq> []" "toLowerCase w = w" "is_word (hd w)" "is_word (last w)"
  shows "match_word_from w prev s
         \<longleftrightarrow> (\<exists>pre m suf. s = pre @ m @ suf \<and> toLowerCase m = w
                \<and> (if pre = [] then \<not> (case prev of None \<Rightarrow> False | Some p \<Rightarrow> is_word p)
                    else \<not> is_word (last pre))
                \<and> (suf = [] \<or> \<not> is_word (hd suf)))"
proof (induction s arbitrary: prev)
  case Nil
  from w(1) w(2) have "\<And>m. toLowerCase m = w \<Longrightarrow> m \<noteq> []" by (auto simp: toLowerCase_def)
  then show ?case by auto
next
  case (Cons c cs)
  let ?here = "\<exists>m suf. c # cs = m @ suf \<and> toLowerCase m = w
                \<and> \<not> (case prev of None \<Rightarrow> False | Some p \<Rightarrow> is_word p)
                \<and> (suf = [] \<or> \<not> is_word (hd suf))"
  let ?later = "\<exists>pre m suf. cs = pre @ m @ suf \<and> toLowerCase m = w
                \<and> (if pre = [] then \<not> is_word c else \<not> is_word (last pre))
                \<and> (suf = [] \<or> \<not> is_word (hd suf))"
  have step: "match_word_from w prev (c # cs) \<longleftrightarrow> ?here \<or> ?later"
    using match_here[OF w, of prev c cs] Cons[of "Some c"] by simp
  show ?case
  proof
    assume "match_word_from w prev (c # cs)"
    with step have "?here \<or> ?later" by simp
    then show "\<exists>pre m suf. c # cs = pre @ m @ suf \<and> toLowerCase m = w
                \<and> (if pre = [] then \<not> (case prev of None \<Rightarrow> False | Some p \<Rightarrow> is_word p)
                    else \<not> is_word (last pre))
                \<and> (suf = [] \<or> \<not> is_word (hd suf))"
    proof
      assume ?here
      then obtain m suf where "c # cs = [] @ m @ suf" "toLowerCase m = w"
        "\<not> (case prev of None \<Rightarrow> False | Some p \<Rightarrow> is_word p)" "suf = [] \<or> \<not> is_word (hd suf)"
        by auto
      then show ?thesis by (intro exI[of _ "[]"] exI[of _ m] exI[of _ suf]) simp
    next
      assume ?later
      then obtain pre m suf where l: "cs = pre @ m @ suf" "toLowerCase m = w"
        "if pre = [] then \<not> is_word c else \<not> is_word (last pre)" "suf = [] \<or> \<not> is_word (hd suf)"
        by blast
      then show ?thesis
        by (intro exI[of _ "c # pre"] exI[of _ m] exI[of _ suf]) (simp split: if_splits)
    qed
  next
    assume "\<exists>pre m suf. c # cs = pre @ m @ suf \<and> toLowerCase m = w
                \<and> (if pre = [] then \<not> (case prev of None \<Rightarrow> False | Some p \<Rightarrow> is_word p)
                    else \<not> is_word (last pre))
                \<and> (suf = [] \<or> \<not> is_word (hd suf))"
    then obtain pre m suf where r: "c # cs = pre @ m @ suf" "toLowerCase m = w"
      "if pre = [] then \<not> (case prev of None \<Rightarrow> False | Some p \<Rightarrow> is_word p)
       else \<not> is_word (last pre)"
      "suf = [] \<or> \<not> is_word (hd suf)" by blast
    have "?here \<or> ?later"
    proof (cases pre)
      case Nil
      with r have ?here by auto
      then show ?thesis ..
    next
      case (Cons p pre')
      with r have "cs = pre' @ m @ suf \<and> toLowerCase m = w
          \<and> (if pre' = [] then \<not> is_word c else \<not> is_word (last pre'))
          \<and> (suf = [] \<or> \<not> is_word (hd suf))"
        by (auto split: if_splits)
      then have ?later by blast
      then show ?thesis ..
    qed
    with step show "match_word_from w prev (c # cs)" by simp
  qed
qed

lemma test_word_iff:
  assumes "w \<noteq> []" "toLowerCase w = w" "is_word (hd w)" "is_word (last w)"
  shows "test_word w s \<longleftrightarrow> contains_the_word w s"
proof -
  have "\<And>pre :: string. (if pre = [] then \<not> (case None :: char option of None \<Rightarrow> False | Some p \<Rightarrow> is_word p)
          else \<not> is_word (last pre)) = (pre = [] \<or> \<not> is_word (last pre))"
    by simp
  then show ?thesis
    unfolding test_word_def contains_the_word_def match_word_from_iff[OF assms] by simp
qed

lemma test_word_chapter: "test_word ''chapter'' s \<longleftrightarrow> contains_the_word ''chapter'' s"
proof (rule test_word_iff)
  show "''chapter'' \<noteq> []" by simp
  show "toLowerCase ''chapter'' = ''chapter''" by (rule lower_chapter)
  show "is_word (hd ''chapter'')" by code_simp
  show "is_word (last ''chapter'')" by code_simp
qed

lemma test_word_section: "test_word ''section'' s \<longleftrightarrow> contains_the_word ''section'' s"
proof (rule test_word_iff)
  show "''section'' \<noteq> []" by simp
  show "toLowerCase ''section'' = ''section''" by (rule lower_section)
  show "is_word (hd ''section'')" by code_simp
  show "is_word (last ''section'')" by code_simp
qed


text \<open>Claim C7. The classifier is a function of the file name alone: a name that starts with
  \<open>ch\<close> or \<open>chapter\<close> followed by a number, or that contains the word \<open>chapter\<close> or
  \<open>section\<close> (in any mix of cases), classifies as textbook, and every other name as paper; in
  particular \<open>Chapter 5 Intro.pdf\<close>, \<open>Section 2 overview.pdf\<close> and \<open>Ch. 1.pdf\<close> are
  textbook and \<open>Smith2023.pdf\<close> is paper.\<close>

theorem guessSourceType_rules:
  "guessSourceType name
     = (if starts_with_ch_and_number name \<or> contains_the_word ''chapter'' name
           \<or> contains_the_word ''section'' name
        then textbook else paper)
   \<and> guessSourceType ''Chapter 5 Intro.pdf'' = textbook
   \<and> guessSourceType ''Smith2023.pdf'' = paper
   \<and> guessSourceType ''Section 2 overview.pdf'' = textbook
   \<and> guessSourceType ''Ch. 1.pdf'' = textbook"
proof (intro conjI)
  show "guessSourceType name
     = (if starts_with_ch_and_number name \<or> contains_the_word ''chapter'' name
           \<or> contains_the_word ''section'' name
        then textbook else paper)"
    by (simp add: guessSourceType_def starts_ch_number_iff test_word_chapter test_word_section)
  show "guessSourceType ''Chapter 5 Intro.pdf'' = textbook" by code_simp
  show "guessSourceType ''Smith2023.pdf'' = paper" by code_simp
  show "guessSourceType ''Section 2 overview.pdf'' = textbook" by code_simp
  show "guessSourceType ''Ch. 1.pdf'' = textbook" by code_simp
qed


text \<open>The witness: \<open>chapters\<close> is not the word \<open>chapter\<close>, and \<open>CHAPTER\<close> between a hyphen
  and a dot is.\<close>

theorem guessSourceType_rules_witness:
  "guessSourceType ''my chapters.pdf'' = paper
   \<and> \<not> contains_the_word ''chapter'' ''my chapters.pdf''
   \<and> guessSourceType ''the-CHAPTER.pdf'' = textbook"
proof -
  have 1: "guessSourceType ''my chapters.pdf'' = paper" by code_simp
  have 2: "guessSourceType ''the-CHAPTER.pdf'' = textbook" by code_simp
  from guessSourceType_rules [of "''my chapters.pdf''"] 1
  have "\<not> contains_the_word ''chapter'' ''my chapters.pdf''"
    by (metis SourceType.distinct(1))
  with 1 2 show ?thesis by simp
qed

end
